theory Spec2Isabelle
  imports Main "HOL-Library.Word"
begin

section \<open>Data model\<close>

text \<open>
  A Python \<open>bytes\<close> object is a list of 8-bit words. A Python \<open>str\<close> is a list of
  Unicode code points, each a natural number; a real \<open>str\<close> only holds code points below
  \<open>0x110000\<close>. Python integers are unbounded: the timestamp is an \<open>int\<close>; lengths,
  sizes and file offsets are never negative and are \<open>nat\<close>.
\<close>

type_synonym byte = "8 word"
type_synonym bytes = "byte list"
type_synonym pystr = "nat list"

text \<open>
  The exceptions the two modules can raise: \<open>struct.error\<close> from \<open>pack\<close> and
  \<open>unpack\<close>, the two Unicode errors from \<open>str.encode\<close> and \<open>bytes.decode\<close>, a failed
  \<open>assert\<close>, and \<open>open\<close> on a file that does not exist. The specification calls the
  first three a FormatError and a failed assertion a ConsistencyViolation.
\<close>

datatype error =
    StructError
  | UnicodeEncodeError
  | UnicodeDecodeError
  | AssertionError
  | FileNotFoundError

definition is_FormatError :: "error \<Rightarrow> bool" where
  "is_FormatError e = (e = StructError \<or> e = UnicodeEncodeError \<or> e = UnicodeDecodeError)"

section \<open>Library functions used by \<open>format.py\<close>\<close>

subsection \<open>\<open>str.encode('utf-8')\<close> and \<open>bytes.decode('utf-8')\<close>\<close>

text \<open>
  The strict UTF-8 codec of Python. Encoding a surrogate (\<open>0xD800\<close> to \<open>0xDFFF\<close>) raises
  \<open>UnicodeEncodeError\<close>. A number from \<open>0x110000\<close> on is no code point and cannot occur in
  a \<open>str\<close>; the model rejects it in the same way.
\<close>

definition utf8_encode_char :: "nat \<Rightarrow> error + bytes" where
  "utf8_encode_char c =
     (if c < 0x80 then Inr [of_nat c]
      else if c < 0x800 then
        Inr [of_nat (0xC0 + c div 64), of_nat (0x80 + c mod 64)]
      else if 0xD800 \<le> c \<and> c < 0xE000 then Inl UnicodeEncodeError
      else if c < 0x10000 then
        Inr [of_nat (0xE0 + c div 4096), of_nat (0x80 + c div 64 mod 64),
             of_nat (0x80 + c mod 64)]
      else if c < 0x110000 then
        Inr [of_nat (0xF0 + c div 262144), of_nat (0x80 + c div 4096 mod 64),
             of_nat (0x80 + c div 64 mod 64), of_nat (0x80 + c mod 64)]
      else Inl UnicodeEncodeError)"

fun utf8_encode :: "pystr \<Rightarrow> error + bytes" where
  "utf8_encode [] = Inr []"
| "utf8_encode (c # cs) =
     (case utf8_encode_char c of
        Inl e \<Rightarrow> Inl e
      | Inr bs \<Rightarrow>
          (case utf8_encode cs of
             Inl e \<Rightarrow> Inl e
           | Inr rest \<Rightarrow> Inr (bs @ rest)))"

text \<open>
  A continuation byte is \<open>0x80\<close> to \<open>0xBF\<close>. The decoder reads one code point from the
  front of the buffer: the lead byte gives the number of continuation bytes; overlong
  forms, surrogates and values from \<open>0x110000\<close> on are rejected, as are a stray
  continuation byte, a lead byte from \<open>0xF8\<close> on and a truncated sequence.
\<close>

definition is_cont :: "byte \<Rightarrow> bool" where
  "is_cont b = (0x80 \<le> unat b \<and> unat b < 0xC0)"

definition utf8_decode_char :: "bytes \<Rightarrow> (nat \<times> bytes) option" where
  "utf8_decode_char data =
     (case data of
        [] \<Rightarrow> None
      | b0 # r0 \<Rightarrow>
          if unat b0 < 0x80 then Some (unat b0, r0)
          else if unat b0 < 0xC0 then None
          else if unat b0 < 0xE0 then
            (case r0 of
               b1 # r1 \<Rightarrow>
                 (let c = (unat b0 - 0xC0) * 64 + (unat b1 - 0x80)
                  in if is_cont b1 \<and> 0x80 \<le> c then Some (c, r1) else None)
             | _ \<Rightarrow> None)
          else if unat b0 < 0xF0 then
            (case r0 of
               b1 # b2 # r2 \<Rightarrow>
                 (let c = (unat b0 - 0xE0) * 4096 + (unat b1 - 0x80) * 64 + (unat b2 - 0x80)
                  in if is_cont b1 \<and> is_cont b2 \<and> 0x800 \<le> c \<and> \<not> (0xD800 \<le> c \<and> c < 0xE000)
                     then Some (c, r2) else None)
             | _ \<Rightarrow> None)
          else if unat b0 < 0xF8 then
            (case r0 of
               b1 # b2 # b3 # r3 \<Rightarrow>
                 (let c = (unat b0 - 0xF0) * 262144 + (unat b1 - 0x80) * 4096
                          + (unat b2 - 0x80) * 64 + (unat b3 - 0x80)
                  in if is_cont b1 \<and> is_cont b2 \<and> is_cont b3 \<and> 0x10000 \<le> c \<and> c < 0x110000
                     then Some (c, r3) else None)
             | _ \<Rightarrow> None)
          else None)"

lemma utf8_decode_char_shorter:
  "utf8_decode_char data = Some (c, rest) \<Longrightarrow> length rest < length data"
  by (auto simp: utf8_decode_char_def Let_def split: list.splits if_splits)

function utf8_decode :: "bytes \<Rightarrow> error + pystr" where
  "utf8_decode data =
     (if data = [] then Inr []
      else case utf8_decode_char data of
             None \<Rightarrow> Inl UnicodeDecodeError
           | Some (c, rest) \<Rightarrow>
               (case utf8_decode rest of
                  Inl e \<Rightarrow> Inl e
                | Inr cs \<Rightarrow> Inr (c # cs)))"
  by pat_completeness auto
termination
  by (relation "measure length") (auto dest: utf8_decode_char_shorter)

declare utf8_decode.simps [simp del]

subsection \<open>\<open>struct.pack\<close> and \<open>struct.unpack\<close> with format \<open><I\<close>\<close>

text \<open>
  \<open>pack("<I", n)\<close> writes an unsigned 32-bit integer as four bytes, least significant
  first, and raises \<open>struct.error\<close> when \<open>n\<close> is negative or does not fit.
\<close>

definition in_range_I :: "int \<Rightarrow> bool" where
  "in_range_I n = (0 \<le> n \<and> n < 2 ^ 32)"

definition pack_I :: "int \<Rightarrow> bytes" where
  "pack_I n = [of_int n, of_int (n div 256), of_int (n div 65536), of_int (n div 16777216)]"

definition unpack_I :: "bytes \<Rightarrow> nat" where
  "unpack_I bs = (case bs of
      [b0, b1, b2, b3] \<Rightarrow> unat b0 + 256 * unat b1 + 65536 * unat b2 + 16777216 * unat b3
    | _ \<Rightarrow> 0)"

section \<open>The record codec (\<open>format.py\<close>)\<close>

definition encode_header :: "int \<Rightarrow> int \<Rightarrow> int \<Rightarrow> error + bytes" where
  "encode_header ts key_size value_size =
     (if in_range_I ts \<and> in_range_I key_size \<and> in_range_I value_size
      then Inr (pack_I ts @ pack_I key_size @ pack_I value_size)
      else Inl StructError)"

text \<open>
  \<open>encode_kv\<close> returns \<open>len(datum) - 12\<close>; the datum starts with the 12-byte header, so the
  subtraction never goes below zero.
\<close>

definition encode_kv :: "int \<Rightarrow> pystr \<Rightarrow> pystr \<Rightarrow> error + (nat \<times> bytes)" where
  "encode_kv ts key val =
     (case utf8_encode key of
        Inl e \<Rightarrow> Inl e
      | Inr key_bytes \<Rightarrow>
          (case utf8_encode val of
             Inl e \<Rightarrow> Inl e
           | Inr value_bytes \<Rightarrow>
               (case encode_header ts (int (length key_bytes)) (int (length value_bytes)) of
                  Inl e \<Rightarrow> Inl e
                | Inr header \<Rightarrow>
                    (let datum = header @ key_bytes @ value_bytes
                     in Inr (length datum - 12, datum)))))"

text \<open>
  \<open>unpack("<III", data)\<close> raises \<open>struct.error\<close> unless \<open>data\<close> has exactly 12 bytes.
\<close>

definition decode_header :: "bytes \<Rightarrow> error + (int \<times> nat \<times> nat)" where
  "decode_header data =
     (if length data \<noteq> 12 then Inl StructError
      else Inr (int (unpack_I (take 4 data)),
                unpack_I (take 4 (drop 4 data)),
                unpack_I (take 4 (drop 8 data))))"

text \<open>
  \<open>decode_kv\<close> unpacks the slice \<open>data[:12]\<close>, which has fewer than 12 bytes when the
  buffer has. The second \<open>unpack\<close>, with the format \<open><{key_size}s{value_size}s\<close>, raises
  \<open>struct.error\<close> unless \<open>data[12:]\<close> has exactly \<open>key_size + value_size\<close> bytes.
\<close>

definition decode_kv :: "bytes \<Rightarrow> error + (int \<times> pystr \<times> pystr)" where
  "decode_kv data =
     (case decode_header (take 12 data) of
        Inl e \<Rightarrow> Inl e
      | Inr (ts, key_size, value_size) \<Rightarrow>
          (let body = drop 12 data in
           if length body \<noteq> key_size + value_size then Inl StructError
           else
             (case utf8_decode (take key_size body) of
                Inl e \<Rightarrow> Inl e
              | Inr key \<Rightarrow>
                  (case utf8_decode (take value_size (drop key_size body)) of
                     Inl e \<Rightarrow> Inl e
                   | Inr val \<Rightarrow> Inr (ts, key, val)))))"

section \<open>The storage engine (\<open>disk_store.py\<close>)\<close>

text \<open>
  The file system is a map from file names to file contents; a name that is not mapped is
  a file that does not exist. Whether a file that does not exist can be created is a
  parameter of \<open>set\<close> (see \<open>open_append\<close>); permission and device errors are outside the
  model. A directory entry is the tuple \<open>(file_name, datum_sz, pos, timestamp)\<close> of the
  source. The engine object has the three attributes the constructor sets.
\<close>

type_synonym fs = "pystr \<rightharpoonup> bytes"
type_synonym dir_entry = "pystr \<times> nat \<times> nat \<times> int"

record DiskStorage =
  timestamp :: int
  file_name :: pystr
  key_dir :: "pystr \<rightharpoonup> dir_entry"

text \<open>
  \<open>file.seek(pos)\<close> followed by \<open>file.read(n)\<close> returns the bytes from offset \<open>pos\<close> on, at
  most \<open>n\<close> of them; fewer (or none) when the file ends first.
\<close>

definition file_read :: "bytes \<Rightarrow> nat \<Rightarrow> nat \<Rightarrow> bytes" where
  "file_read file pos n = take n (drop pos file)"

text \<open>The contents a file is opened with: none when it does not exist yet.\<close>

definition file_content :: "fs \<Rightarrow> pystr \<Rightarrow> bytes" where
  "file_content files name = (case files name of None \<Rightarrow> [] | Some c \<Rightarrow> c)"

text \<open>
  One pass through the body of the \<open>while True\<close> loop of \<open>key_dir_from\<close>, with the file
  position \<open>pos\<close> at its start: \<open>Inr None\<close> is the \<open>break\<close>, \<open>Inr (Some (self', pos'))\<close>
  the engine and the position after the \<open>seek\<close>, \<open>Inl\<close> an exception. Assertions are
  enabled.
\<close>

definition key_dir_from_body :: "DiskStorage \<Rightarrow> bytes \<Rightarrow> nat \<Rightarrow> error + (DiskStorage \<times> nat) option"
  where
  "key_dir_from_body self file pos =
     (let header = file_read file pos 12 in
      if header = [] then Inr None
      else
        (case decode_header header of
           Inl e \<Rightarrow> Inl e
         | Inr (ts, key_size, value_size) \<Rightarrow>
             if \<not> key_size > 0 then Inl AssertionError
             else if \<not> value_size > 0 then Inl AssertionError
             else
               (let key_bytes = file_read file (pos + 12) key_size in
                if \<not> length key_bytes > 0 then Inl AssertionError
                else
                  (case utf8_decode key_bytes of
                     Inl e \<Rightarrow> Inl e
                   | Inr key \<Rightarrow>
                       Inr (Some
                         (self\<lparr>key_dir := (key_dir self)
                             (key \<mapsto> (file_name self, 12 + key_size + value_size, pos, ts))\<rparr>,
                          pos + 12 + key_size + value_size))))))"

lemma key_dir_from_body_advances:
  "key_dir_from_body self file pos = Inr (Some (self', pos')) \<Longrightarrow>
   pos < length file \<and> pos < pos'"
  by (auto simp: key_dir_from_body_def file_read_def Let_def
           split: if_splits sum.splits prod.splits)

function key_dir_from :: "DiskStorage \<Rightarrow> bytes \<Rightarrow> nat \<Rightarrow> error + DiskStorage" where
  "key_dir_from self file pos =
     (case key_dir_from_body self file pos of
        Inl e \<Rightarrow> Inl e
      | Inr None \<Rightarrow> Inr self
      | Inr (Some (self', pos')) \<Rightarrow> key_dir_from self' file pos')"
  by pat_completeness auto
termination
  by (relation "measure (\<lambda>(self, file, pos). length file - pos)")
     (auto dest: key_dir_from_body_advances)

declare key_dir_from.simps [simp del]

text \<open>
  Where the startup scan stands after \<open>n\<close> more passes through the loop body, from the
  engine and position \<open>st\<close>: \<open>None\<close> when the loop has left (by \<open>break\<close> or by an
  exception) before that.
\<close>

fun scan_after :: "bytes \<Rightarrow> nat \<Rightarrow> DiskStorage \<times> nat \<Rightarrow> (DiskStorage \<times> nat) option" where
  "scan_after file 0 st = Some st"
| "scan_after file (Suc n) st =
     (case key_dir_from_body (fst st) file (snd st) of
        Inr (Some st') \<Rightarrow> scan_after file n st'
      | _ \<Rightarrow> None)"

definition DiskStorage_init :: "fs \<Rightarrow> pystr \<Rightarrow> error + DiskStorage" where
  "DiskStorage_init files fname =
     (let self = \<lparr>timestamp = 0, file_name = fname, key_dir = Map.empty\<rparr> in
      case files fname of
        None \<Rightarrow> Inr self
      | Some file \<Rightarrow> key_dir_from self file 0)"

definition next_timestamp :: "DiskStorage \<Rightarrow> int \<times> DiskStorage" where
  "next_timestamp self =
     (let self' = self\<lparr>timestamp := timestamp self + 1\<rparr> in (timestamp self', self'))"

text \<open>
  Opening a file in mode \<open>ab\<close> gives the file when it exists and creates it, empty, when
  it does not; \<open>tell\<close> then gives its length. Creating fails with \<open>FileNotFoundError\<close>
  for a name under which no file can be made: the empty name, or a path in a directory
  that does not exist. Directories are not part of the file contents, so the predicate
  \<open>creatable\<close> says under which names a file can be created.
\<close>

definition open_append :: "(pystr \<Rightarrow> bool) \<Rightarrow> fs \<Rightarrow> pystr \<Rightarrow> error + bytes" where
  "open_append creatable files name =
     (case files name of
        Some content \<Rightarrow> Inr content
      | None \<Rightarrow> if creatable name then Inr [] else Inl FileNotFoundError)"

text \<open>
  The methods return their result (or the exception) together with the engine and the file
  system as they leave them: an exception does not undo an assignment made before it. In
  \<open>set\<close> the counter is incremented first, then \<open>encode_kv\<close> can raise, then \<open>open\<close>; the
  directory and the file are only touched after that.
\<close>

definition DiskStorage_set ::
  "(pystr \<Rightarrow> bool) \<Rightarrow> DiskStorage \<Rightarrow> fs \<Rightarrow> pystr \<Rightarrow> pystr \<Rightarrow> (error + unit) \<times> DiskStorage \<times> fs"
  where
  "DiskStorage_set creatable self files key val =
     (case next_timestamp self of
        (ts, self1) \<Rightarrow>
          (case encode_kv ts key val of
             Inl e \<Rightarrow> (Inl e, self1, files)
           | Inr (datum_sz, datum) \<Rightarrow>
               (case open_append creatable files (file_name self1) of
                  Inl e \<Rightarrow> (Inl e, self1, files)
                | Inr file \<Rightarrow>
                    (let pos = length file;
                         self2 = self1\<lparr>key_dir := (key_dir self1)
                                   (key \<mapsto> (file_name self1, datum_sz + 12, pos, ts))\<rparr>
                     in (Inr (), self2, files(file_name self1 \<mapsto> file @ datum))))))"

definition DiskStorage_get ::
  "DiskStorage \<Rightarrow> fs \<Rightarrow> pystr \<Rightarrow> (error + pystr) \<times> DiskStorage \<times> fs" where
  "DiskStorage_get self files key =
     (case key_dir self key of
        None \<Rightarrow> (Inr [], self, files)
      | Some (fname, datum_sz, pos, ts) \<Rightarrow>
          if fname \<noteq> file_name self then (Inl AssertionError, self, files)
          else
            (case files fname of
               None \<Rightarrow> (Inl FileNotFoundError, self, files)
             | Some file \<Rightarrow>
                 (case decode_kv (file_read file pos datum_sz) of
                    Inl e \<Rightarrow> (Inl e, self, files)
                  | Inr (stored_timestamp, stored_key, stored_value) \<Rightarrow>
                      if key \<noteq> stored_key then (Inl AssertionError, self, files)
                      else if ts \<noteq> stored_timestamp then (Inl AssertionError, self, files)
                      else (Inr stored_value, self, files))))"

text \<open>\<open>close\<close> opens the file in mode \<open>rb+\<close>, which does not create it, and syncs it.\<close>

definition DiskStorage_close :: "DiskStorage \<Rightarrow> fs \<Rightarrow> (error + unit) \<times> DiskStorage \<times> fs" where
  "DiskStorage_close self files =
     (case files (file_name self) of
        None \<Rightarrow> (Inl FileNotFoundError, self, files)
      | Some file \<Rightarrow> (Inr (), self, files))"

subsection \<open>A client of the engine\<close>

text \<open>
  A client issues calls one after the other on the same engine and file system, and goes
  on after a call that raised. \<open>returned\<close> says that a call returns normally, and
  \<open>all_returned\<close> that every call of a sequence does. \<open>flat_dir\<close> is the environment in
  which a file can be created under every name but the empty one.
\<close>

datatype call = Set pystr pystr | Get pystr | Close

fun perform :: "(pystr \<Rightarrow> bool) \<Rightarrow> DiskStorage \<times> fs \<Rightarrow> call \<Rightarrow> DiskStorage \<times> fs" where
  "perform creatable (self, files) (Set key val) =
     snd (DiskStorage_set creatable self files key val)"
| "perform creatable (self, files) (Get key) = snd (DiskStorage_get self files key)"
| "perform creatable (self, files) Close = snd (DiskStorage_close self files)"

definition run :: "(pystr \<Rightarrow> bool) \<Rightarrow> DiskStorage \<times> fs \<Rightarrow> call list \<Rightarrow> DiskStorage \<times> fs"
  where
  "run creatable w calls = foldl (perform creatable) w calls"

definition is_value :: "error + 'a \<Rightarrow> bool" where
  "is_value r = (case r of Inl e \<Rightarrow> False | Inr v \<Rightarrow> True)"

fun returned :: "(pystr \<Rightarrow> bool) \<Rightarrow> DiskStorage \<times> fs \<Rightarrow> call \<Rightarrow> bool" where
  "returned creatable (self, files) (Set key val) =
     is_value (fst (DiskStorage_set creatable self files key val))"
| "returned creatable (self, files) (Get key) = is_value (fst (DiskStorage_get self files key))"
| "returned creatable (self, files) Close = is_value (fst (DiskStorage_close self files))"

fun all_returned :: "(pystr \<Rightarrow> bool) \<Rightarrow> DiskStorage \<times> fs \<Rightarrow> call list \<Rightarrow> bool" where
  "all_returned creatable w [] = True"
| "all_returned creatable w (c # calls) =
     (returned creatable w c \<and> all_returned creatable (perform creatable w c) calls)"

definition flat_dir :: "pystr \<Rightarrow> bool" where
  "flat_dir name = (name \<noteq> [])"

text \<open>The calls of the client that are \<open>set\<close> calls, and their number.\<close>

fun is_set :: "call \<Rightarrow> bool" where
  "is_set (Set key val) = True"
| "is_set (Get key) = False"
| "is_set Close = False"

definition count_sets :: "call list \<Rightarrow> nat" where
  "count_sets calls = length (filter is_set calls)"

subsection \<open>The log of records in a file\<close>

text \<open>
  What follows describes a file rather than translating code. A log record is the triple
  \<open>(timestamp, key, value)\<close> of one \<open>set\<close> call. A key-value pair is writable when both
  strings are non-empty and their UTF-8 encodings exist and are shorter than \<open>2^32\<close>
  bytes; a record is good when its pair is writable and its timestamp fits in 32 bits.
  \<open>record_bytes\<close> is the datum that \<open>encode_kv\<close> returns for a record and \<open>log_bytes\<close> the
  file that holds the records one after the other. \<open>log_dir\<close> is the directory that
  reading the records in order gives, the first of them at offset \<open>pos\<close>; \<open>log_value\<close>
  maps each key to the value of its last record. \<open>new_records t kvs\<close> are the records of
  \<open>set\<close> calls for the pairs \<open>kvs\<close> by an engine whose counter is \<open>t\<close>. \<open>log_inv\<close> says
  that the engine's file holds exactly the records \<open>rs\<close> and that its directory is the
  one they give.
\<close>

type_synonym log_record = "int \<times> pystr \<times> pystr"

definition writable :: "pystr \<times> pystr \<Rightarrow> bool" where
  "writable kv =
     (fst kv \<noteq> [] \<and> snd kv \<noteq> [] \<and>
      (case utf8_encode (fst kv) of Inl e \<Rightarrow> False | Inr kb \<Rightarrow> length kb < 2 ^ 32) \<and>
      (case utf8_encode (snd kv) of Inl e \<Rightarrow> False | Inr vb \<Rightarrow> length vb < 2 ^ 32))"

definition good_record :: "log_record \<Rightarrow> bool" where
  "good_record r = (in_range_I (fst r) \<and> writable (snd r))"

definition record_bytes :: "log_record \<Rightarrow> bytes" where
  "record_bytes r =
     (case encode_kv (fst r) (fst (snd r)) (snd (snd r)) of
        Inl e \<Rightarrow> []
      | Inr (sz, datum) \<Rightarrow> datum)"

definition log_bytes :: "log_record list \<Rightarrow> bytes" where
  "log_bytes rs = concat (map record_bytes rs)"

fun log_dir :: "pystr \<Rightarrow> nat \<Rightarrow> log_record list \<Rightarrow> (pystr \<rightharpoonup> dir_entry) \<Rightarrow> (pystr \<rightharpoonup> dir_entry)"
  where
  "log_dir fname pos [] m = m"
| "log_dir fname pos (r # rs) m =
     log_dir fname (pos + length (record_bytes r)) rs
       (m(fst (snd r) \<mapsto> (fname, length (record_bytes r), pos, fst r)))"

definition log_value :: "log_record list \<Rightarrow> (pystr \<rightharpoonup> pystr)" where
  "log_value rs = map_of (rev (map snd rs))"

fun new_records :: "int \<Rightarrow> (pystr \<times> pystr) list \<Rightarrow> log_record list" where
  "new_records t [] = []"
| "new_records t (kv # kvs) = (t + 1, kv) # new_records (t + 1) kvs"

definition log_inv :: "pystr \<Rightarrow> log_record list \<Rightarrow> DiskStorage \<times> fs \<Rightarrow> bool" where
  "log_inv fname rs w =
     (file_name (fst w) = fname \<and> file_content (snd w) fname = log_bytes rs \<and>
      key_dir (fst w) = log_dir fname 0 rs Map.empty)"

section \<open>Properties of the library functions\<close>

lemma div_lt: "(c::nat) < k * m \<Longrightarrow> 0 < k \<Longrightarrow> c div k < m"
  by (simp add: less_mult_imp_div_less mult.commute)

lemma radix64_2: "(x::nat) * 4096 + y * 64 + z = (x * 64 + y) * 64 + z"
  by simp

lemma radix64_3: "(w::nat) * 262144 + x * 4096 + y * 64 + z = ((w * 64 + x) * 64 + y) * 64 + z"
  by simp

lemma radix64_eq3: "c div 4096 * 4096 + c div 64 mod 64 * 64 + c mod 64 = (c::nat)"
proof -
  have "c div 4096 = c div 64 div 64" by (simp add: div_mult2_eq [symmetric])
  then show ?thesis
    by (simp only: radix64_2 div_mult_mod_eq)
qed

lemma radix64_eq4:
  "c div 262144 * 262144 + c div 4096 mod 64 * 4096 + c div 64 mod 64 * 64 + c mod 64 = (c::nat)"
proof -
  have a: "c div 262144 = c div 64 div 64 div 64" by (simp add: div_mult2_eq [symmetric])
  have b: "c div 4096 = c div 64 div 64" by (simp add: div_mult2_eq [symmetric])
  show ?thesis
    by (simp only: a b radix64_3 div_mult_mod_eq)
qed

lemma unat_lead: "x < m \<Longrightarrow> k + m \<le> 256 \<Longrightarrow> unat (of_nat (k + x) :: byte) = k + x"
  by (subst unat_of_nat) simp

lemma unat_trail: "unat (of_nat (0x80 + x mod 64) :: byte) = 0x80 + x mod 64"
proof -
  have "x mod 64 < 64" by simp
  then show ?thesis by (rule unat_lead) simp
qed

lemma decode_char_1:
  "unat b0 < 0x80 \<Longrightarrow> utf8_decode_char (b0 # rest) = Some (unat b0, rest)"
  by (simp add: utf8_decode_char_def)

lemma decode_char_2:
  assumes "unat b0 = 0xC0 + x" "unat b1 = 0x80 + y" "x < 32" "y < 64" "0x80 \<le> x * 64 + y"
  shows "utf8_decode_char (b0 # b1 # rest) = Some (x * 64 + y, rest)"
  using assms by (simp add: utf8_decode_char_def is_cont_def Let_def)

lemma decode_char_3:
  assumes "unat b0 = 0xE0 + x" "unat b1 = 0x80 + y" "unat b2 = 0x80 + z"
    "x < 16" "y < 64" "z < 64" "0x800 \<le> x * 4096 + y * 64 + z"
    "\<not> (0xD800 \<le> x * 4096 + y * 64 + z \<and> x * 4096 + y * 64 + z < 0xE000)"
  shows "utf8_decode_char (b0 # b1 # b2 # rest) = Some (x * 4096 + y * 64 + z, rest)"
  using assms by (simp add: utf8_decode_char_def is_cont_def Let_def)

lemma decode_char_4:
  assumes "unat b0 = 0xF0 + w" "unat b1 = 0x80 + x" "unat b2 = 0x80 + y" "unat b3 = 0x80 + z"
    "w < 8" "x < 64" "y < 64" "z < 64" "0x10000 \<le> w * 262144 + x * 4096 + y * 64 + z"
    "w * 262144 + x * 4096 + y * 64 + z < 0x110000"
  shows "utf8_decode_char (b0 # b1 # b2 # b3 # rest)
           = Some (w * 262144 + x * 4096 + y * 64 + z, rest)"
  using assms by (simp add: utf8_decode_char_def is_cont_def Let_def)

lemma encode_char_1: "c < 0x80 \<Longrightarrow> utf8_encode_char c = Inr [of_nat c]"
  by (simp add: utf8_encode_char_def)

lemma encode_char_2:
  "0x80 \<le> c \<Longrightarrow> c < 0x800 \<Longrightarrow>
   utf8_encode_char c = Inr [of_nat (0xC0 + c div 64), of_nat (0x80 + c mod 64)]"
  by (simp add: utf8_encode_char_def)

lemma encode_char_3:
  "0x800 \<le> c \<Longrightarrow> c < 0x10000 \<Longrightarrow> \<not> (0xD800 \<le> c \<and> c < 0xE000) \<Longrightarrow>
   utf8_encode_char c = Inr [of_nat (0xE0 + c div 4096), of_nat (0x80 + c div 64 mod 64),
        of_nat (0x80 + c mod 64)]"
  by (auto simp: utf8_encode_char_def)

lemma encode_char_4:
  "0x10000 \<le> c \<Longrightarrow> c < 0x110000 \<Longrightarrow>
   utf8_encode_char c = Inr [of_nat (0xF0 + c div 262144), of_nat (0x80 + c div 4096 mod 64),
        of_nat (0x80 + c div 64 mod 64), of_nat (0x80 + c mod 64)]"
  by (simp add: utf8_encode_char_def)

lemma encode_char_err:
  "(0xD800 \<le> c \<and> c < 0xE000) \<or> 0x110000 \<le> c \<Longrightarrow> utf8_encode_char c = Inl UnicodeEncodeError"
  by (auto simp: utf8_encode_char_def)

lemma utf8_decode_encode_char:
  assumes "utf8_encode_char c = Inr bs"
  shows "utf8_decode_char (bs @ rest) = Some (c, rest)"
proof -
  consider (a) "c < 0x80" | (b) "0x80 \<le> c" "c < 0x800"
    | (c) "0x800 \<le> c" "c < 0x10000" "\<not> (0xD800 \<le> c \<and> c < 0xE000)"
    | (d) "0x10000 \<le> c" "c < 0x110000"
    | (e) "(0xD800 \<le> c \<and> c < 0xE000) \<or> 0x110000 \<le> c"
    by linarith
  then show ?thesis
  proof cases
    case a
    have u: "unat (of_nat c :: byte) = c" using a by (simp add: unat_of_nat)
    have "bs = [of_nat c]" using assms encode_char_1 [OF a] by simp
    then show ?thesis using a u decode_char_1 [of "of_nat c" rest] by simp
  next
    case b
    have x: "c div 64 < 32" using b by (intro div_lt) simp_all
    have bs: "bs = [of_nat (0xC0 + c div 64), of_nat (0x80 + c mod 64)]"
      using assms encode_char_2 [OF b] by simp
    have "utf8_decode_char (of_nat (0xC0 + c div 64) # of_nat (0x80 + c mod 64) # rest)
        = Some (c div 64 * 64 + c mod 64, rest)"
    proof (rule decode_char_2)
      show "unat (of_nat (0xC0 + c div 64) :: byte) = 0xC0 + c div 64"
        using x by (rule unat_lead) simp
      show "unat (of_nat (0x80 + c mod 64) :: byte) = 0x80 + c mod 64" by (rule unat_trail)
      show "c div 64 < 32" by (rule x)
      show "c mod 64 < 64" by simp
      show "0x80 \<le> c div 64 * 64 + c mod 64" using b by (simp only: div_mult_mod_eq)
    qed
    then show ?thesis unfolding bs by (simp only: div_mult_mod_eq append_Cons append_Nil)
  next
    case c
    have x: "c div 4096 < 16" using c by (intro div_lt) simp_all
    have bs: "bs = [of_nat (0xE0 + c div 4096), of_nat (0x80 + c div 64 mod 64),
        of_nat (0x80 + c mod 64)]"
      using assms encode_char_3 [OF c] by simp
    have "utf8_decode_char (of_nat (0xE0 + c div 4096) # of_nat (0x80 + c div 64 mod 64)
          # of_nat (0x80 + c mod 64) # rest)
        = Some (c div 4096 * 4096 + c div 64 mod 64 * 64 + c mod 64, rest)"
    proof (rule decode_char_3)
      show "unat (of_nat (0xE0 + c div 4096) :: byte) = 0xE0 + c div 4096"
        using x by (rule unat_lead) simp
      show "unat (of_nat (0x80 + c div 64 mod 64) :: byte) = 0x80 + c div 64 mod 64"
        by (rule unat_trail)
      show "unat (of_nat (0x80 + c mod 64) :: byte) = 0x80 + c mod 64" by (rule unat_trail)
      show "c div 4096 < 16" by (rule x)
      show "c div 64 mod 64 < 64" "c mod 64 < 64" by simp_all
      show "0x800 \<le> c div 4096 * 4096 + c div 64 mod 64 * 64 + c mod 64"
        using c by (simp only: radix64_eq3)
      show "\<not> (0xD800 \<le> c div 4096 * 4096 + c div 64 mod 64 * 64 + c mod 64
          \<and> c div 4096 * 4096 + c div 64 mod 64 * 64 + c mod 64 < 0xE000)"
        unfolding radix64_eq3 by (rule c(3))
    qed
    then show ?thesis unfolding bs by (simp only: radix64_eq3 append_Cons append_Nil)
  next
    case d
    have w: "c div 262144 < 8" using d by (intro div_lt) simp_all
    have bs: "bs = [of_nat (0xF0 + c div 262144), of_nat (0x80 + c div 4096 mod 64),
        of_nat (0x80 + c div 64 mod 64), of_nat (0x80 + c mod 64)]"
      using assms encode_char_4 [OF d] by simp
    have "utf8_decode_char (of_nat (0xF0 + c div 262144) # of_nat (0x80 + c div 4096 mod 64)
          # of_nat (0x80 + c div 64 mod 64) # of_nat (0x80 + c mod 64) # rest)
        = Some (c div 262144 * 262144 + c div 4096 mod 64 * 4096 + c div 64 mod 64 * 64
                + c mod 64, rest)"
    proof (rule decode_char_4)
      show "unat (of_nat (0xF0 + c div 262144) :: byte) = 0xF0 + c div 262144"
        using w by (rule unat_lead) simp
      show "unat (of_nat (0x80 + c div 4096 mod 64) :: byte) = 0x80 + c div 4096 mod 64"
        by (rule unat_trail)
      show "unat (of_nat (0x80 + c div 64 mod 64) :: byte) = 0x80 + c div 64 mod 64"
        by (rule unat_trail)
      show "unat (of_nat (0x80 + c mod 64) :: byte) = 0x80 + c mod 64" by (rule unat_trail)
      show "c div 262144 < 8" by (rule w)
      show "c div 4096 mod 64 < 64" "c div 64 mod 64 < 64" "c mod 64 < 64" by simp_all
      show "0x10000 \<le> c div 262144 * 262144 + c div 4096 mod 64 * 4096
          + c div 64 mod 64 * 64 + c mod 64"
        using d by (simp only: radix64_eq4)
      show "c div 262144 * 262144 + c div 4096 mod 64 * 4096
          + c div 64 mod 64 * 64 + c mod 64 < 0x110000"
        using d by (simp only: radix64_eq4)
    qed
    then show ?thesis unfolding bs by (simp only: radix64_eq4 append_Cons append_Nil)
  next
    case e
    then show ?thesis using assms encode_char_err [OF e] by simp
  qed
qed


lemma utf8_encode_char_nonempty: "utf8_encode_char c = Inr bs \<Longrightarrow> bs \<noteq> []"
  by (auto simp: utf8_encode_char_def split: if_splits)

lemma utf8_decode_Nil: "utf8_decode [] = Inr []"
  by (simp add: utf8_decode.simps)

lemma utf8_decode_step:
  "data \<noteq> [] \<Longrightarrow> utf8_decode_char data = Some (c, rest) \<Longrightarrow> utf8_decode rest = Inr cs
   \<Longrightarrow> utf8_decode data = Inr (c # cs)"
  by (subst utf8_decode.simps) simp

lemma utf8_encode_Cons:
  "utf8_encode (c # cs) = Inr bs \<Longrightarrow>
   \<exists>b1 b2. utf8_encode_char c = Inr b1 \<and> utf8_encode cs = Inr b2 \<and> bs = b1 @ b2"
  by (auto split: sum.splits)

lemma utf8_decode_encode: "utf8_encode s = Inr bs \<Longrightarrow> utf8_decode bs = Inr s"
proof (induction s arbitrary: bs)
  case Nil
  then show ?case by (simp add: utf8_decode_Nil)
next
  case (Cons c cs)
  from utf8_encode_Cons [OF Cons.prems] obtain b1 b2
    where e1: "utf8_encode_char c = Inr b1"
      and e2: "utf8_encode cs = Inr b2" and bs: "bs = b1 @ b2"
    by blast
  have "b1 @ b2 \<noteq> []" using utf8_encode_char_nonempty [OF e1] by simp
  then show ?case unfolding bs
    using utf8_decode_encode_char [OF e1] Cons.IH [OF e2] by (rule utf8_decode_step)
qed

lemma length_pack_I: "length (pack_I n) = 4"
  by (simp add: pack_I_def)

lemma unat_of_int8: "unat (of_int n :: byte) = nat (n mod 256)"
  by (simp add: unat_eq_nat_uint uint_word_of_int)

lemma radix256:
  assumes "0 \<le> n" "n < 2 ^ 32"
  shows "n mod 256 + 256 * (n div 256 mod 256) + 65536 * (n div 65536 mod 256)
          + 16777216 * (n div 16777216 mod 256) = (n::int)"
proof -
  have a: "n div 65536 = n div 256 div 256" by (simp add: zdiv_zmult2_eq [symmetric])
  have b: "n div 16777216 = n div 256 div 256 div 256" by (simp add: zdiv_zmult2_eq [symmetric])
  have c: "n div 16777216 < 256" using assms by (simp add: div_less_iff_less_mult)
  have d: "0 \<le> n div 16777216" using assms by simp
  have e: "n div 16777216 mod 256 = n div 16777216" using c d by simp
  have f: "\<And>w x y z::int. z + 256 * y + 65536 * x + 16777216 * w
      = z + 256 * (y + 256 * (x + 256 * w))" by simp
  show ?thesis
    unfolding e unfolding a b f by (simp only: mult_div_mod_eq mod_mult_div_eq add.commute)
qed

lemma unpack_pack_I:
  assumes "in_range_I n"
  shows "int (unpack_I (pack_I n)) = n"
proof -
  have n: "0 \<le> n" "n < 2 ^ 32" using assms by (simp_all add: in_range_I_def)
  have u: "\<And>k::int. int (unat (of_int k :: byte)) = k mod 256"
    by (simp add: unat_of_int8)
  have "int (unpack_I (pack_I n)) =
      n mod 256 + 256 * (n div 256 mod 256) + 65536 * (n div 65536 mod 256)
          + 16777216 * (n div 16777216 mod 256)"
    unfolding unpack_I_def pack_I_def list.case
    by (simp only: of_nat_add of_nat_mult u of_nat_numeral)
  also have "\<dots> = n" by (rule radix256 [OF n])
  finally show ?thesis .
qed

lemma decode_encode_header:
  assumes "encode_header ts (int ks) (int vs) = Inr header"
  shows "decode_header header = Inr (ts, ks, vs)" and "length header = 12"
proof -
  have r: "in_range_I ts" "in_range_I (int ks)" "in_range_I (int vs)"
    and h: "header = pack_I ts @ pack_I (int ks) @ pack_I (int vs)"
    using assms by (auto simp: encode_header_def split: if_splits)
  show "length header = 12" by (simp add: h length_pack_I)
  have "int (unpack_I (pack_I (int ks))) = int ks" "int (unpack_I (pack_I (int vs))) = int vs"
    using r by (simp_all only: unpack_pack_I)
  then have "unpack_I (pack_I (int ks)) = ks" "unpack_I (pack_I (int vs)) = vs"
    by simp_all
  then show "decode_header header = Inr (ts, ks, vs)"
    using unpack_pack_I [OF r(1)] by (simp add: decode_header_def h length_pack_I)
qed

lemma encode_kv_Inr:
  assumes "encode_kv ts key val = Inr (sz, datum)"
  shows "\<exists>kb vb header. utf8_encode key = Inr kb \<and> utf8_encode val = Inr vb
     \<and> encode_header ts (int (length kb)) (int (length vb)) = Inr header
     \<and> datum = header @ kb @ vb \<and> sz = length kb + length vb"
proof -
  from assms obtain kb vb header where e: "utf8_encode key = Inr kb" "utf8_encode val = Inr vb"
    "encode_header ts (int (length kb)) (int (length vb)) = Inr header"
    "datum = header @ kb @ vb" "sz = length datum - 12"
    by (auto simp: encode_kv_def Let_def split: sum.splits)
  have "length header = 12" using e(3) by (rule decode_encode_header(2))
  then have "sz = length kb + length vb" using e(4,5) by simp
  then show ?thesis using e by blast
qed

lemma decode_kv_encode_kv:
  assumes "encode_kv ts key val = Inr (sz, datum)"
  shows "decode_kv datum = Inr (ts, key, val)"
proof -
  from encode_kv_Inr [OF assms] obtain kb vb header
    where e: "utf8_encode key = Inr kb" "utf8_encode val = Inr vb"
      "encode_header ts (int (length kb)) (int (length vb)) = Inr header"
      "datum = header @ kb @ vb"
    by blast
  note h = decode_encode_header [OF e(3)]
  have "take 12 datum = header" "drop 12 datum = kb @ vb" using h(2) e(4) by simp_all
  then show ?thesis
    using h(1) utf8_decode_encode [OF e(1)] utf8_decode_encode [OF e(2)]
    by (simp add: decode_kv_def)
qed

lemma encode_kv_ok:
  assumes "in_range_I ts" "utf8_encode key = Inr kb" "utf8_encode val = Inr vb"
    "length kb < 2 ^ 32" "length vb < 2 ^ 32"
  shows "encode_kv ts key val =
     Inr (length kb + length vb, pack_I ts @ pack_I (int (length kb)) @ pack_I (int (length vb)) @ kb @ vb)"
proof -
  have "in_range_I (int (length kb))" "in_range_I (int (length vb))"
    using assms(4,5) by (simp_all add: in_range_I_def)
  then show ?thesis using assms(1-3)
    by (simp add: encode_kv_def encode_header_def length_pack_I)
qed

section \<open>Properties of the record codec\<close>

lemma utf8_encode_replicate_ascii:
  "utf8_encode (replicate n 97) = Inr (replicate n 97)"
  by (induction n) (simp_all add: utf8_encode_char_def)

lemma encode_kv_oversize:
  assumes "utf8_encode key = Inr kb" "utf8_encode val = Inr vb" "\<not> length kb < 2 ^ 32"
  shows "encode_kv ts key val = Inl StructError"
  using assms by (simp add: encode_kv_def encode_header_def in_range_I_def)

lemma decode_header_length: "decode_header data = Inr h \<Longrightarrow> length data = 12"
  by (auto simp: decode_header_def split: if_splits)

lemma decode_kv_Inr:
  assumes "decode_kv data = Inr r"
  shows "\<exists>ts ks vs. decode_header (take 12 data) = Inr (ts, ks, vs) \<and> length data = 12 + ks + vs"
proof -
  from assms obtain ts ks vs where h: "decode_header (take 12 data) = Inr (ts, ks, vs)"
    and l: "length (drop 12 data) = ks + vs"
    by (auto simp: decode_kv_def Let_def split: sum.splits prod.splits if_splits)
  have "length (take 12 data) = 12" using h by (rule decode_header_length)
  then have "12 \<le> length data" by simp
  then have "length data = 12 + ks + vs" using l by simp
  then show ?thesis using h by blast
qed

lemma decode_kv_wrong_length:
  "decode_header (take 12 data) = Inr (ts, ks, vs) \<Longrightarrow> length data \<noteq> 12 + ks + vs \<Longrightarrow>
   decode_kv data = Inl StructError"
  by (frule decode_header_length) (auto simp: decode_kv_def Let_def)

lemma decode_kv_short: "length data < 12 \<Longrightarrow> decode_kv data = Inl StructError"
  by (simp add: decode_kv_def decode_header_def)

section \<open>The claims about the record codec\<close>

text \<open>
  Claim C1, as amended. Round trip of the record codec: for every timestamp in
  \<open>[0, 2^32)\<close> and every key and value whose UTF-8 encodings exist, are non-empty and are
  shorter than \<open>2^32\<close> bytes, \<open>encode_kv\<close> returns a buffer and \<open>decode_kv\<close> applied to that
  buffer gives back the timestamp, the key and the value. (The claim as stated has no
  bound on the encoded lengths; \<open>pack\<close> raises for a size that does not fit in 32 bits.)
\<close>
theorem encode_kv_roundtrip:
  assumes "0 \<le> ts" "ts < 2 ^ 32"
    and "utf8_encode key = Inr kb" "utf8_encode val = Inr vb"
    and "kb \<noteq> []" "vb \<noteq> []"
    and "length kb < 2 ^ 32" "length vb < 2 ^ 32"
  shows "\<exists>sz datum. encode_kv ts key val = Inr (sz, datum) \<and>
                    decode_kv datum = Inr (ts, key, val)"
proof -
  have "in_range_I ts" using assms(1,2) by (simp add: in_range_I_def)
  from encode_kv_ok [OF this assms(3,4,7,8)] obtain sz datum
    where e: "encode_kv ts key val = Inr (sz, datum)" by blast
  then show ?thesis using decode_kv_encode_kv [OF e] by blast
qed

text \<open>The round trip at timestamp 1, key \<open>"k"\<close> and value \<open>"v"\<close>.\<close>
theorem encode_kv_roundtrip_witness:
  "utf8_encode [107] = Inr [107] \<and> utf8_encode [118] = Inr [118] \<and>
   (\<exists>sz datum. encode_kv 1 [107] [118] = Inr (sz, datum) \<and>
                decode_kv datum = Inr (1, [107], [118]))"
proof -
  have k: "utf8_encode [107] = Inr [107]" and v: "utf8_encode [118] = Inr [118]"
    by (simp_all add: utf8_encode_char_def)
  show ?thesis
    using encode_kv_roundtrip [OF _ _ k v] k v by simp
qed

text \<open>
  Claim C1 as stated fails for a key of \<open>2^32\<close> letters \<open>a\<close>: its encoding exists and is not
  empty, the timestamp 0 is in range, and \<open>encode_kv\<close> raises \<open>struct.error\<close>, so there is
  no buffer to decode.
\<close>
theorem encode_kv_oversize_key:
  "utf8_encode (replicate (2 ^ 32) 97) = Inr (replicate (2 ^ 32) 97) \<and>
   replicate (2 ^ 32) (97 :: byte) \<noteq> [] \<and>
   utf8_encode [118] = Inr [118] \<and>
   encode_kv 0 (replicate (2 ^ 32) 97) [118] = Inl StructError"
proof -
  have k: "utf8_encode (replicate (2 ^ 32) 97) = Inr (replicate (2 ^ 32) 97)"
    by (rule utf8_encode_replicate_ascii)
  have v: "utf8_encode [118] = Inr [118]" by (simp add: utf8_encode_char_def)
  have l: "\<not> length (replicate (2 ^ 32) (97 :: byte)) < 2 ^ 32"
    by (simp only: length_replicate less_irrefl not_False_eq_True)
  have n: "replicate (2 ^ 32) (97 :: byte) \<noteq> []"
    by (simp only: replicate_empty) simp
  show ?thesis using k v n encode_kv_oversize [OF k v l] by blast
qed

text \<open>
  Claim C6. Header boundary: \<open>decode_header\<close> on a buffer of fewer than 12 bytes raises
  \<open>struct.error\<close>, a FormatError, and so does \<open>decode_kv\<close>; \<open>decode_kv\<close> on a buffer
  whose header declares \<open>key_size\<close> and \<open>value_size\<close> and that is shorter than
  \<open>12 + key_size + value_size\<close> raises \<open>struct.error\<close> too. Neither returns a value.
\<close>
theorem decode_short_buffer:
  "(length data < 12 \<longrightarrow>
      decode_header data = Inl StructError \<and> decode_kv data = Inl StructError) \<and>
   (decode_header (take 12 data) = Inr (ts, ks, vs) \<and> length data < 12 + ks + vs \<longrightarrow>
      decode_kv data = Inl StructError) \<and>
   is_FormatError StructError"
  by (auto simp: decode_kv_short decode_header_def decode_kv_wrong_length is_FormatError_def)

text \<open>A buffer of three bytes, and a record cut one byte short of its declared value.\<close>
theorem decode_short_buffer_witness:
  "decode_header [1, 0, 0] = Inl StructError \<and> decode_kv [1, 0, 0] = Inl StructError \<and>
   decode_header (take 12 [1, 0, 0, 0, 1, 0, 0, 0, 2, 0, 0, 0, 107, 118]) = Inr (1, 1, 2) \<and>
   decode_kv [1, 0, 0, 0, 1, 0, 0, 0, 2, 0, 0, 0, 107, 118] = Inl StructError"
proof -
  have h: "decode_header (take 12 [1, 0, 0, 0, 1, 0, 0, 0, 2, 0, 0, 0, 107, 118]) = Inr (1, 1, 2)"
    by (simp add: decode_header_def unpack_I_def)
  show ?thesis
    using h decode_short_buffer [of "[1, 0, 0]"]
      decode_short_buffer [of "[1, 0, 0, 0, 1, 0, 0, 0, 2, 0, 0, 0, 107, 118]" 1 1 2]
    by simp
qed

text \<open>
  Claim C9. Exact-length decoding: \<open>decode_kv\<close> returns a value only when the buffer has
  exactly \<open>12 + key_size + value_size\<close> bytes for the sizes its header declares; a buffer
  longer than that raises \<open>struct.error\<close>, in particular an encoded record followed by
  any trailing bytes; \<open>decode_header\<close> raises on a buffer longer than 12 bytes and returns
  a value only on exactly 12.
\<close>
theorem decode_exact_length:
  "(decode_kv data = Inr r \<longrightarrow>
      (\<exists>ts ks vs. decode_header (take 12 data) = Inr (ts, ks, vs) \<and>
                  length data = 12 + ks + vs)) \<and>
   (decode_header (take 12 data) = Inr (ts, ks, vs) \<and> 12 + ks + vs < length data \<longrightarrow>
      decode_kv data = Inl StructError) \<and>
   (12 < length data \<longrightarrow> decode_header data = Inl StructError) \<and>
   (decode_header data = Inr h \<longrightarrow> length data = 12) \<and>
   (encode_kv t key val = Inr (sz, datum) \<and> extra \<noteq> [] \<longrightarrow>
      decode_kv (datum @ extra) = Inl StructError)"
proof (intro conjI impI)
  assume "decode_kv data = Inr r"
  then show "\<exists>ts ks vs. decode_header (take 12 data) = Inr (ts, ks, vs) \<and>
                  length data = 12 + ks + vs"
    by (rule decode_kv_Inr)
next
  assume "decode_header (take 12 data) = Inr (ts, ks, vs) \<and> 12 + ks + vs < length data"
  then show "decode_kv data = Inl StructError"
    by (intro decode_kv_wrong_length [of data ts ks vs]) simp_all
next
  assume "12 < length data"
  then show "decode_header data = Inl StructError" by (simp add: decode_header_def)
next
  assume "decode_header data = Inr h"
  then show "length data = 12" by (rule decode_header_length)
next
  assume a: "encode_kv t key val = Inr (sz, datum) \<and> extra \<noteq> []"
  then have e: "encode_kv t key val = Inr (sz, datum)" and x: "extra \<noteq> []" by simp_all
  from encode_kv_Inr [OF e] obtain kb vb header
    where k: "encode_header t (int (length kb)) (int (length vb)) = Inr header"
      "datum = header @ kb @ vb"
    by blast
  note hd = decode_encode_header [OF k(1)]
  have "take 12 (datum @ extra) = header" using hd(2) k(2) by simp
  then have "decode_header (take 12 (datum @ extra)) = Inr (t, length kb, length vb)"
    using hd(1) by simp
  moreover have "length (datum @ extra) \<noteq> 12 + length kb + length vb"
    using hd(2) k(2) x by simp
  ultimately show "decode_kv (datum @ extra) = Inl StructError"
    by (rule decode_kv_wrong_length)
qed

text \<open>The record \<open>(1, "k", "v")\<close>, alone and with one trailing byte; a header of 13 bytes.\<close>
theorem decode_exact_length_witness:
  "decode_kv [1, 0, 0, 0, 1, 0, 0, 0, 1, 0, 0, 0, 107, 118] = Inr (1, [107], [118]) \<and>
   decode_header (take 12 [1, 0, 0, 0, 1, 0, 0, 0, 1, 0, 0, 0, 107, 118]) = Inr (1, 1, 1) \<and>
   decode_kv [1, 0, 0, 0, 1, 0, 0, 0, 1, 0, 0, 0, 107, 118, 0] = Inl StructError \<and>
   decode_header [1, 0, 0, 0, 1, 0, 0, 0, 1, 0, 0, 0, 107] = Inl StructError \<and>
   decode_header [1, 0, 0, 0, 1, 0, 0, 0, 1, 0, 0, 0] = Inr (1, 1, 1) \<and>
   encode_kv 1 [107] [118] = Inr (2, [1, 0, 0, 0, 1, 0, 0, 0, 1, 0, 0, 0, 107, 118])"
proof -
  have d: "decode_kv [1, 0, 0, 0, 1, 0, 0, 0, 1, 0, 0, 0, 107, 118] = Inr (1, [107], [118])"
    by (simp add: decode_kv_def decode_header_def unpack_I_def utf8_decode.simps
        utf8_decode_char_def)
  have h: "decode_header (take 12 [1, 0, 0, 0, 1, 0, 0, 0, 1, 0, 0, 0, 107, 118, 0]) = Inr (1, 1, 1)"
    by (simp add: decode_header_def unpack_I_def)
  have h': "decode_header [1, 0, 0, 0, 1, 0, 0, 0, 1, 0, 0, 0] = Inr (1, 1, 1)"
    by (simp add: decode_header_def unpack_I_def)
  have e: "encode_kv 1 [107] [118] = Inr (2, [1, 0, 0, 0, 1, 0, 0, 0, 1, 0, 0, 0, 107, 118])"
    by (simp add: encode_kv_def encode_header_def in_range_I_def pack_I_def utf8_encode_char_def)
  show ?thesis
    using d h h' e
      decode_exact_length [of "[1, 0, 0, 0, 1, 0, 0, 0, 1, 0, 0, 0, 107, 118, 0]" _ 1 1 1]
      decode_exact_length [of "[1, 0, 0, 0, 1, 0, 0, 0, 1, 0, 0, 0, 107]"]
    by simp
qed

section \<open>Properties of the storage engine\<close>

lemma encode_kv_length: "encode_kv ts key val = Inr (sz, datum) \<Longrightarrow> length datum = sz + 12"
proof -
  assume a: "encode_kv ts key val = Inr (sz, datum)"
  from encode_kv_Inr [OF a] obtain kb vb header
    where k: "encode_header ts (int (length kb)) (int (length vb)) = Inr header"
      "datum = header @ kb @ vb" "sz = length kb + length vb"
    by blast
  show ?thesis using decode_encode_header(2) [OF k(1)] k(2,3) by simp
qed

lemma next_timestamp_eq:
  "next_timestamp self = (timestamp self + 1, self\<lparr>timestamp := timestamp self + 1\<rparr>)"
  by (simp add: next_timestamp_def)

lemma open_append_Inr:
  "open_append creatable files name = Inr content \<Longrightarrow> content = file_content files name"
  by (auto simp: open_append_def file_content_def split: option.splits if_splits)

lemma open_append_ok:
  "files name \<noteq> None \<or> creatable name \<Longrightarrow>
   open_append creatable files name = Inr (file_content files name)"
  by (auto simp: open_append_def file_content_def split: option.splits)

lemma open_append_Inl:
  "open_append creatable files name = Inl e \<Longrightarrow>
   e = FileNotFoundError \<and> files name = None \<and> \<not> creatable name"
  by (auto simp: open_append_def split: option.splits if_splits)

lemma DiskStorage_set_Inl:
  "encode_kv (timestamp self + 1) key val = Inl e \<Longrightarrow>
   DiskStorage_set creatable self files key val
     = (Inl e, self\<lparr>timestamp := timestamp self + 1\<rparr>, files)"
  by (simp add: DiskStorage_set_def next_timestamp_eq)

lemma DiskStorage_set_no_open:
  "encode_kv (timestamp self + 1) key val = Inr p \<Longrightarrow>
   open_append creatable files (file_name self) = Inl e \<Longrightarrow>
   DiskStorage_set creatable self files key val
     = (Inl e, self\<lparr>timestamp := timestamp self + 1\<rparr>, files)"
  by (cases p) (simp add: DiskStorage_set_def next_timestamp_eq)

lemma DiskStorage_set_Inr:
  "encode_kv (timestamp self + 1) key val = Inr (sz, datum) \<Longrightarrow>
   open_append creatable files (file_name self) = Inr content \<Longrightarrow>
   DiskStorage_set creatable self files key val =
     (Inr (),
      self\<lparr>timestamp := timestamp self + 1,
           key_dir := (key_dir self)
             (key \<mapsto> (file_name self, sz + 12, length (file_content files (file_name self)),
                      timestamp self + 1))\<rparr>,
      files(file_name self \<mapsto> file_content files (file_name self) @ datum))"
  by (frule open_append_Inr) (simp add: DiskStorage_set_def next_timestamp_eq Let_def)

lemma DiskStorage_set_ok:
  assumes "DiskStorage_set creatable self files key val = (Inr (), self', files')"
  shows "\<exists>sz datum. encode_kv (timestamp self + 1) key val = Inr (sz, datum) \<and>
     open_append creatable files (file_name self)
       = Inr (file_content files (file_name self)) \<and>
     self' = self\<lparr>timestamp := timestamp self + 1,
           key_dir := (key_dir self)
             (key \<mapsto> (file_name self, sz + 12, length (file_content files (file_name self)),
                      timestamp self + 1))\<rparr> \<and>
     files' = files(file_name self \<mapsto> file_content files (file_name self) @ datum)"
proof (cases "encode_kv (timestamp self + 1) key val")
  case (Inl e)
  then show ?thesis using assms DiskStorage_set_Inl [OF Inl, of creatable files] by simp
next
  case (Inr p)
  obtain sz datum where p: "p = (sz, datum)" by (cases p)
  show ?thesis
  proof (cases "open_append creatable files (file_name self)")
    case (Inl e)
    then show ?thesis using assms DiskStorage_set_no_open [OF Inr Inl] by simp
  next
    case o: (Inr content)
    have c: "content = file_content files (file_name self)" using o by (rule open_append_Inr)
    show ?thesis
      using assms DiskStorage_set_Inr [OF Inr [unfolded p] o] Inr p o c by auto
  qed
qed

lemma DiskStorage_set_cases:
  "(\<exists>e. DiskStorage_set creatable self files key val
          = (Inl e, self\<lparr>timestamp := timestamp self + 1\<rparr>, files)) \<or>
   (\<exists>sz datum. DiskStorage_set creatable self files key val =
     (Inr (),
      self\<lparr>timestamp := timestamp self + 1,
           key_dir := (key_dir self)
             (key \<mapsto> (file_name self, sz + 12, length (file_content files (file_name self)),
                      timestamp self + 1))\<rparr>,
      files(file_name self \<mapsto> file_content files (file_name self) @ datum)))"
proof (cases "encode_kv (timestamp self + 1) key val")
  case (Inl e)
  then show ?thesis using DiskStorage_set_Inl [OF Inl, of creatable files] by blast
next
  case (Inr p)
  obtain sz datum where p: "p = (sz, datum)" by (cases p)
  show ?thesis
  proof (cases "open_append creatable files (file_name self)")
    case (Inl e)
    then show ?thesis using DiskStorage_set_no_open [OF Inr Inl] by blast
  next
    case o: (Inr content)
    show ?thesis using DiskStorage_set_Inr [OF Inr [unfolded p] o] by blast
  qed
qed

lemma DiskStorage_set_timestamp:
  "timestamp (fst (snd (DiskStorage_set creatable self files key val))) = timestamp self + 1"
  using DiskStorage_set_cases [of creatable self files key val] by auto

lemma DiskStorage_set_file_name:
  "file_name (fst (snd (DiskStorage_set creatable self files key val))) = file_name self"
  using DiskStorage_set_cases [of creatable self files key val] by auto

lemma DiskStorage_get_frame: "snd (DiskStorage_get self files key) = (self, files)"
  by (simp add: DiskStorage_get_def split: option.splits prod.splits sum.splits)

lemma DiskStorage_close_frame: "snd (DiskStorage_close self files) = (self, files)"
  by (simp add: DiskStorage_close_def split: option.splits)

lemma DiskStorage_get_found:
  assumes "key_dir self key = Some (file_name self, datum_sz, pos, ts)"
    and "files (file_name self) = Some content"
    and "decode_kv (file_read content pos datum_sz) = Inr (ts, key, v)"
  shows "DiskStorage_get self files key = (Inr v, self, files)"
  using assms by (simp add: DiskStorage_get_def)

lemma key_dir_from_raise:
  "key_dir_from_body self file pos = Inl e \<Longrightarrow> key_dir_from self file pos = Inl e"
  by (subst key_dir_from.simps) simp

lemma key_dir_from_break:
  "key_dir_from_body self file pos = Inr None \<Longrightarrow> key_dir_from self file pos = Inr self"
  by (subst key_dir_from.simps) simp

lemma key_dir_from_continue:
  "key_dir_from_body self file pos = Inr (Some (self', pos')) \<Longrightarrow>
   key_dir_from self file pos = key_dir_from self' file pos'"
  by (subst key_dir_from.simps) simp

lemma key_dir_from_body_keeps:
  "key_dir_from_body self file pos = Inr (Some (self', pos')) \<Longrightarrow>
   timestamp self' = timestamp self \<and> file_name self' = file_name self"
  by (auto simp: key_dir_from_body_def Let_def split: if_splits sum.splits prod.splits)

lemma key_dir_from_keeps:
  "key_dir_from self file pos = Inr self' \<Longrightarrow>
   timestamp self' = timestamp self \<and> file_name self' = file_name self"
proof (induction self "file" pos rule: key_dir_from.induct)
  case (1 self content pos)
  show ?case
  proof (cases "key_dir_from_body self content pos")
    case (Inl e)
    then show ?thesis using "1.prems" key_dir_from_raise [OF Inl] by simp
  next
    case (Inr r)
    show ?thesis
    proof (cases r)
      case None
      then show ?thesis using "1.prems" key_dir_from_break [of self content pos] Inr by simp
    next
      case (Some st)
      obtain s p where st: "st = (s, p)" by (cases st)
      have b: "key_dir_from_body self content pos = Inr (Some (s, p))" using Inr Some st by simp
      have "key_dir_from s content p = Inr self'"
        using "1.prems" key_dir_from_continue [OF b] by simp
      then have "timestamp self' = timestamp s \<and> file_name self' = file_name s"
        using "1.IH" [OF b refl refl] by simp
      then show ?thesis using key_dir_from_body_keeps [OF b] by simp
    qed
  qed
qed

lemma DiskStorage_init_keeps:
  "DiskStorage_init files fname = Inr self \<Longrightarrow> timestamp self = 0 \<and> file_name self = fname"
  by (auto simp: DiskStorage_init_def Let_def split: option.splits dest: key_dir_from_keeps)

lemma scan_after_key_dir_from:
  "scan_after file n (self, pos) = Some (self', pos') \<Longrightarrow>
   key_dir_from self file pos = key_dir_from self' file pos'"
proof (induction n arbitrary: self pos)
  case 0
  then show ?case by simp
next
  case (Suc n)
  from Suc.prems obtain s p where b: "key_dir_from_body self file pos = Inr (Some (s, p))"
    and r: "scan_after file n (s, p) = Some (self', pos')"
    by (auto split: sum.splits option.splits)
  show ?case using key_dir_from_continue [OF b] Suc.IH [OF r] by simp
qed

lemma key_dir_from_body_assert:
  assumes "decode_header (file_read file pos 12) = Inr (ts, ks, vs)"
    and "ks = 0 \<or> vs = 0 \<or> file_read file (pos + 12) ks = []"
  shows "key_dir_from_body self file pos = Inl AssertionError"
proof -
  have "length (file_read file pos 12) = 12" using assms(1) by (rule decode_header_length)
  then have "file_read file pos 12 \<noteq> []" by auto
  then show ?thesis using assms by (auto simp: key_dir_from_body_def Let_def)
qed

lemma perform_timestamp:
  "timestamp (fst (perform creatable w c)) = timestamp (fst w) + (if is_set c then 1 else 0)"
  by (cases w; cases c)
     (simp_all add: DiskStorage_set_timestamp DiskStorage_get_frame DiskStorage_close_frame)

lemma run_snoc: "run creatable w (calls @ [c]) = perform creatable (run creatable w calls) c"
  by (simp add: run_def)

lemma run_timestamp:
  "timestamp (fst (run creatable w calls)) = timestamp (fst w) + int (count_sets calls)"
proof (induction calls rule: rev_induct)
  case Nil
  then show ?case by (simp add: run_def count_sets_def)
next
  case (snoc c calls)
  then show ?case by (simp add: run_snoc perform_timestamp count_sets_def)
qed

lemma run_no_set:
  "\<forall>c \<in> set calls. \<not> is_set c \<Longrightarrow> run creatable w calls = w"
proof (induction calls rule: rev_induct)
  case Nil
  then show ?case by (simp add: run_def)
next
  case (snoc c calls)
  then have "run creatable w calls = w" and "\<not> is_set c" by simp_all
  then show ?case
    by (cases w; cases c)
       (simp_all add: run_snoc DiskStorage_get_frame DiskStorage_close_frame)
qed

lemma scan_after_add:
  "scan_after file (n + m) st =
     (case scan_after file n st of None \<Rightarrow> None | Some st' \<Rightarrow> scan_after file m st')"
  by (induction n arbitrary: st) (auto split: sum.splits option.splits)

lemma perform_file_name: "file_name (fst (perform creatable w c)) = file_name (fst w)"
  by (cases w; cases c)
     (simp_all add: DiskStorage_set_file_name DiskStorage_get_frame DiskStorage_close_frame)

lemma run_file_name: "file_name (fst (run creatable w calls)) = file_name (fst w)"
  by (induction calls rule: rev_induct) (simp_all add: run_def perform_file_name)

text \<open>
  Claim C4. Unknown key: in every engine state, for every key that is not in the key
  directory, \<open>get\<close> returns the empty string; it raises nothing (the result is a value, not
  an exception), reads no file, and leaves the engine and the file system as they were.
\<close>
theorem get_unknown_key:
  "key_dir self key = None \<Longrightarrow> DiskStorage_get self files key = (Inr [], self, files)"
  by (simp add: DiskStorage_get_def)

text \<open>A new engine over no file, asked for the key \<open>"k"\<close>.\<close>
theorem get_unknown_key_witness:
  "DiskStorage_get \<lparr>timestamp = 0, file_name = [100], key_dir = Map.empty\<rparr> Map.empty [107]
     = (Inr [], \<lparr>timestamp = 0, file_name = [100], key_dir = Map.empty\<rparr>, Map.empty)"
  using get_unknown_key [of "\<lparr>timestamp = 0, file_name = [100], key_dir = Map.empty\<rparr>" "[107]" Map.empty]
  by simp

text \<open>
  Claim C8. Read consistency check: for a key whose directory entry is
  \<open>(fname, datum_sz, pos, ts)\<close>, \<open>get\<close> reads \<open>datum_sz\<close> bytes at offset \<open>pos\<close> of the file
  (all of them when the file has that many from \<open>pos\<close> on) and decodes them; it returns
  a value exactly when the entry names the engine's file and the bytes decode to the
  timestamp \<open>ts\<close>, the requested key and that value. When the decoded key or timestamp
  differs from the requested key or from \<open>ts\<close>, or the entry names another file, \<open>get\<close>
  raises \<open>AssertionError\<close>, the ConsistencyViolation of the specification.
\<close>
theorem get_consistency_check:
  assumes "key_dir self key = Some (fname, datum_sz, pos, ts)"
  shows "(fst (DiskStorage_get self files key) = Inr v \<longleftrightarrow>
            fname = file_name self \<and>
            (\<exists>file. files fname = Some file \<and>
                    decode_kv (file_read file pos datum_sz) = Inr (ts, key, v))) \<and>
         (fname = file_name self \<and> files fname = Some content \<and>
            decode_kv (file_read content pos datum_sz) = Inr (sts, sk, sv) \<and>
            (sk \<noteq> key \<or> sts \<noteq> ts) \<longrightarrow>
            fst (DiskStorage_get self files key) = Inl AssertionError) \<and>
         (fname \<noteq> file_name self \<longrightarrow>
            fst (DiskStorage_get self files key) = Inl AssertionError) \<and>
         length (file_read content pos datum_sz) = min datum_sz (length content - pos)"
  using assms
  by (auto simp: DiskStorage_get_def file_read_def split: option.splits sum.splits prod.splits)

text \<open>
  A file holding the record \<open>(1, "k", "v")\<close>, and a directory that maps both \<open>"k"\<close> and
  \<open>"j"\<close> to it: \<open>get("k")\<close> returns \<open>"v"\<close>, \<open>get("j")\<close> raises.
\<close>
theorem get_consistency_check_witness:
  "fst (DiskStorage_get
          \<lparr>timestamp = 1, file_name = [100],
           key_dir = [[107] \<mapsto> ([100], 14, 0, 1), [106] \<mapsto> ([100], 14, 0, 1)]\<rparr>
          [[100] \<mapsto> [1, 0, 0, 0, 1, 0, 0, 0, 1, 0, 0, 0, 107, 118]] [107]) = Inr [118] \<and>
   fst (DiskStorage_get
          \<lparr>timestamp = 1, file_name = [100],
           key_dir = [[107] \<mapsto> ([100], 14, 0, 1), [106] \<mapsto> ([100], 14, 0, 1)]\<rparr>
          [[100] \<mapsto> [1, 0, 0, 0, 1, 0, 0, 0, 1, 0, 0, 0, 107, 118]] [106]) = Inl AssertionError"
proof -
  let ?db = "\<lparr>timestamp = 1, file_name = [100],
           key_dir = [[107] \<mapsto> ([100], 14, 0, 1), [106] \<mapsto> ([100], 14, 0, 1)]\<rparr>"
  let ?c = "[1, 0, 0, 0, 1, 0, 0, 0, 1, 0, 0, 0, 107, 118] :: bytes"
  have d: "decode_kv (file_read ?c 0 14) = Inr (1, [107], [118])"
    by (simp add: file_read_def decode_kv_def decode_header_def unpack_I_def utf8_decode.simps
        utf8_decode_char_def)
  have k: "key_dir ?db [107] = Some ([100], 14, 0, 1)" by simp
  have j: "key_dir ?db [106] = Some ([100], 14, 0, 1)" by simp
  show ?thesis
    using d get_consistency_check [OF k, of "[[100] \<mapsto> ?c]" "[118]" ?c]
      get_consistency_check [OF j, of "[[100] \<mapsto> ?c]" _ ?c 1 "[107]" "[118]"]
    by simp
qed

text \<open>
  Claim C10. \<open>get\<close> is read-only: whatever it returns or raises, the engine (key
  directory, counter, file name) and the file system after the call are the ones before
  it. \<open>close\<close> changes nothing either, so a client that makes no \<open>set\<close> call leaves
  everything as it was. \<open>set\<close> keeps the file name, touches no other file, and changes
  the engine's file only by appending to it. (The constructor returns an engine and has
  no file system to return: it opens the file for reading only.)
\<close>
theorem get_read_only:
  "(DiskStorage_get self files key = (r, self', files') \<longrightarrow>
      self' = self \<and> key_dir self' = key_dir self \<and> timestamp self' = timestamp self \<and>
      file_name self' = file_name self \<and> files' = files) \<and>
   snd (DiskStorage_close self files) = (self, files) \<and>
   ((\<forall>c \<in> set calls. \<not> is_set c) \<longrightarrow> run creatable (self, files) calls = (self, files)) \<and>
   (DiskStorage_set creatable self files key val = (r', self'', files'') \<longrightarrow>
      file_name self'' = file_name self \<and>
      (\<forall>name. name \<noteq> file_name self \<longrightarrow> files'' name = files name) \<and>
      (\<exists>datum. file_content files'' (file_name self)
                 = file_content files (file_name self) @ datum))"
proof (intro conjI impI)
  assume "DiskStorage_get self files key = (r, self', files')"
  then have "snd (DiskStorage_get self files key) = (self', files')" by simp
  then have e: "self' = self" "files' = files" by (simp_all add: DiskStorage_get_frame)
  show "self' = self" "key_dir self' = key_dir self" "timestamp self' = timestamp self"
    "file_name self' = file_name self" "files' = files"
    using e by simp_all
next
  show "snd (DiskStorage_close self files) = (self, files)" by (rule DiskStorage_close_frame)
next
  assume "\<forall>c \<in> set calls. \<not> is_set c"
  then show "run creatable (self, files) calls = (self, files)" by (rule run_no_set)
next
  assume a: "DiskStorage_set creatable self files key val = (r', self'', files'')"
  show "file_name self'' = file_name self"
    using DiskStorage_set_file_name [of creatable self files key val] a by simp
  show "\<forall>name. name \<noteq> file_name self \<longrightarrow> files'' name = files name"
    using a DiskStorage_set_cases [of creatable self files key val] by auto
  show "\<exists>datum. file_content files'' (file_name self)
                 = file_content files (file_name self) @ datum"
    using a DiskStorage_set_cases [of creatable self files key val]
    by (auto simp: file_content_def)
qed

lemma encode_kv_k_v:
  "encode_kv 1 [107] [118] = Inr (2, [1, 0, 0, 0, 1, 0, 0, 0, 1, 0, 0, 0, 107, 118])"
  by (simp add: encode_kv_def encode_header_def in_range_I_def pack_I_def utf8_encode_char_def)

lemma decode_kv_k_v:
  "decode_kv [1, 0, 0, 0, 1, 0, 0, 0, 1, 0, 0, 0, 107, 118] = Inr (1, [107], [118])"
  using decode_kv_encode_kv [OF encode_kv_k_v] .

text \<open>A successful \<open>get\<close>, and a client that calls \<open>get\<close>, \<open>close\<close> and \<open>get\<close>.\<close>
theorem get_read_only_witness:
  "DiskStorage_get
     \<lparr>timestamp = 1, file_name = [100], key_dir = [[107] \<mapsto> ([100], 14, 0, 1)]\<rparr>
     [[100] \<mapsto> [1, 0, 0, 0, 1, 0, 0, 0, 1, 0, 0, 0, 107, 118]] [107]
   = (Inr [118],
      \<lparr>timestamp = 1, file_name = [100], key_dir = [[107] \<mapsto> ([100], 14, 0, 1)]\<rparr>,
      [[100] \<mapsto> [1, 0, 0, 0, 1, 0, 0, 0, 1, 0, 0, 0, 107, 118]]) \<and>
   run flat_dir (\<lparr>timestamp = 1, file_name = [100], key_dir = [[107] \<mapsto> ([100], 14, 0, 1)]\<rparr>,
        [[100] \<mapsto> [1, 0, 0, 0, 1, 0, 0, 0, 1, 0, 0, 0, 107, 118]])
       [Get [107], Close, Get [106]]
   = (\<lparr>timestamp = 1, file_name = [100], key_dir = [[107] \<mapsto> ([100], 14, 0, 1)]\<rparr>,
      [[100] \<mapsto> [1, 0, 0, 0, 1, 0, 0, 0, 1, 0, 0, 0, 107, 118]])"
proof -
  let ?db = "\<lparr>timestamp = 1, file_name = [100], key_dir = [[107] \<mapsto> ([100], 14, 0, 1)]\<rparr>"
  let ?files = "[[100] \<mapsto> [1, 0, 0, 0, 1, 0, 0, 0, 1, 0, 0, 0, 107, 118 :: byte]]"
  have g: "DiskStorage_get ?db ?files [107] = (Inr [118], ?db, ?files)"
    by (rule DiskStorage_get_found [where datum_sz = 14 and pos = 0 and ts = 1
          and content = "[1, 0, 0, 0, 1, 0, 0, 0, 1, 0, 0, 0, 107, 118]"])
       (simp_all add: file_read_def decode_kv_k_v)
  have c: "\<forall>c \<in> set [Get [107], Close, Get [106]]. \<not> is_set c" by simp
  show ?thesis
    using g c get_read_only [of ?db ?files "[107]" "Inr [118]" ?db ?files
        "[Get [107], Close, Get [106]]" flat_dir]
    by blast
qed

text \<open>
  Claim C5. Write-sequence counter: an engine that the constructor returns has the
  counter 0, whatever timestamps the file holds. After any calls of which \<open>n\<close> are \<open>set\<close>
  calls (raising or not) the counter is \<open>n\<close>, and the next \<open>set\<close> call is assigned
  \<open>n + 1\<close> by \<open>next_timestamp\<close>, which increments and then returns: the counter is \<open>n + 1\<close>
  after that call, and when the call succeeds the directory entry and the record it wrote
  carry the timestamp \<open>n + 1\<close>.
\<close>
theorem write_sequence_counter:
  assumes "DiskStorage_init files fname = Inr db"
  shows "timestamp db = 0 \<and>
         timestamp (fst (run creatable (db, files) calls)) = int (count_sets calls) \<and>
         next_timestamp (fst (run creatable (db, files) calls))
           = (int (count_sets calls) + 1,
              (fst (run creatable (db, files) calls))\<lparr>timestamp := int (count_sets calls) + 1\<rparr>) \<and>
         timestamp (fst (snd (DiskStorage_set creatable (fst (run creatable (db, files) calls))
                                 (snd (run creatable (db, files) calls)) key val)))
           = int (count_sets calls) + 1 \<and>
         (run creatable (db, files) calls = (db', files') \<and>
          DiskStorage_set creatable db' files' key val = (Inr (), db'', files'') \<longrightarrow>
            (\<exists>sz pos. key_dir db'' key = Some (fname, sz, pos, int (count_sets calls) + 1) \<and>
               decode_kv (file_read (file_content files'' fname) pos sz)
                 = Inr (int (count_sets calls) + 1, key, val)))"
proof -
  note i = DiskStorage_init_keeps [OF assms]
  have t: "timestamp (fst (run creatable (db, files) calls)) = int (count_sets calls)"
    using run_timestamp [of creatable "(db, files)" calls] i by simp
  have n: "file_name (fst (run creatable (db, files) calls)) = fname"
    using run_file_name [of creatable "(db, files)" calls] i by simp
  have last: "\<exists>sz pos. key_dir db'' key = Some (fname, sz, pos, int (count_sets calls) + 1) \<and>
               decode_kv (file_read (file_content files'' fname) pos sz)
                 = Inr (int (count_sets calls) + 1, key, val)"
    if r: "run creatable (db, files) calls = (db', files')"
      and s: "DiskStorage_set creatable db' files' key val = (Inr (), db'', files'')"
  proof -
    have t': "timestamp db' = int (count_sets calls)" and n': "file_name db' = fname"
      using t n r by simp_all
    from DiskStorage_set_ok [OF s] obtain sz datum
      where e: "encode_kv (timestamp db' + 1) key val = Inr (sz, datum)"
        and d: "db'' = db'\<lparr>timestamp := timestamp db' + 1,
           key_dir := (key_dir db')
             (key \<mapsto> (file_name db', sz + 12, length (file_content files' (file_name db')),
                      timestamp db' + 1))\<rparr>"
        and f: "files'' = files'(file_name db' \<mapsto> file_content files' (file_name db') @ datum)"
      by blast
    have l: "length datum = sz + 12" using e by (rule encode_kv_length)
    have "file_read (file_content files'' fname) (length (file_content files' fname)) (sz + 12)
        = datum"
      using l by (simp add: f n' file_content_def file_read_def)
    moreover have "decode_kv datum = Inr (int (count_sets calls) + 1, key, val)"
      using decode_kv_encode_kv [OF e] t' by simp
    moreover have "key_dir db'' key
        = Some (fname, sz + 12, length (file_content files' fname), int (count_sets calls) + 1)"
      by (simp add: d n' t')
    ultimately show ?thesis by metis
  qed
  show ?thesis
    using i t last by (auto simp: next_timestamp_eq DiskStorage_set_timestamp)
qed

lemma scan_record_7:
  "key_dir_from \<lparr>timestamp = 0, file_name = [100], key_dir = Map.empty\<rparr>
     [7, 0, 0, 0, 1, 0, 0, 0, 1, 0, 0, 0, 107, 118] 0
   = Inr \<lparr>timestamp = 0, file_name = [100], key_dir = [[107] \<mapsto> ([100], 14, 0, 7)]\<rparr>"
proof -
  let ?c = "[7, 0, 0, 0, 1, 0, 0, 0, 1, 0, 0, 0, 107, 118] :: bytes"
  have b1: "key_dir_from_body \<lparr>timestamp = 0, file_name = [100], key_dir = Map.empty\<rparr> ?c 0
      = Inr (Some (\<lparr>timestamp = 0, file_name = [100],
                    key_dir = [[107] \<mapsto> ([100], 14, 0, 7)]\<rparr>, 14))"
    by (simp add: key_dir_from_body_def file_read_def decode_header_def unpack_I_def
        utf8_decode.simps utf8_decode_char_def)
  have b2: "key_dir_from_body
      \<lparr>timestamp = 0, file_name = [100], key_dir = [[107] \<mapsto> ([100], 14, 0, 7)]\<rparr> ?c 14
      = Inr None"
    by (simp add: key_dir_from_body_def file_read_def)
  show ?thesis
    using key_dir_from_continue [OF b1] key_dir_from_break [OF b2] by simp
qed

text \<open>
  An engine started over a file whose only record has the timestamp 7: the counter is 0,
  and after two \<open>set\<close> calls and a \<open>get\<close> the next timestamp is 3.
\<close>
theorem write_sequence_counter_witness:
  "DiskStorage_init [[100] \<mapsto> [7, 0, 0, 0, 1, 0, 0, 0, 1, 0, 0, 0, 107, 118]] [100]
     = Inr \<lparr>timestamp = 0, file_name = [100], key_dir = [[107] \<mapsto> ([100], 14, 0, 7)]\<rparr> \<and>
   timestamp (fst (run flat_dir
     (\<lparr>timestamp = 0, file_name = [100], key_dir = [[107] \<mapsto> ([100], 14, 0, 7)]\<rparr>,
      [[100] \<mapsto> [7, 0, 0, 0, 1, 0, 0, 0, 1, 0, 0, 0, 107, 118]])
     [Set [97] [98], Get [97], Set [97] [99]])) = 2 \<and>
   fst (next_timestamp (fst (run flat_dir
     (\<lparr>timestamp = 0, file_name = [100], key_dir = [[107] \<mapsto> ([100], 14, 0, 7)]\<rparr>,
      [[100] \<mapsto> [7, 0, 0, 0, 1, 0, 0, 0, 1, 0, 0, 0, 107, 118]])
     [Set [97] [98], Get [97], Set [97] [99]]))) = 3"
proof -
  let ?files = "[[100] \<mapsto> [7, 0, 0, 0, 1, 0, 0, 0, 1, 0, 0, 0, 107, 118 :: byte]]"
  let ?db = "\<lparr>timestamp = 0, file_name = [100], key_dir = [[107] \<mapsto> ([100], 14, 0, 7)]\<rparr>"
  have i: "DiskStorage_init ?files [100] = Inr ?db"
    by (simp add: DiskStorage_init_def scan_record_7)
  show ?thesis
    using i write_sequence_counter [OF i, where creatable = flat_dir
        and calls = "[Set [97] [98], Get [97], Set [97] [99]]"]
    by (simp add: count_sets_def)
qed

text \<open>
  Claim C7. Fail-fast startup scan: when the scan of an existing file, after any number
  \<open>n\<close> of records, stands at a header that decodes to \<open>key_size = 0\<close> or \<open>value_size = 0\<close>,
  or whose key read yields no bytes, the loop body raises \<open>AssertionError\<close> there, the
  scan goes no further (there is no state after more than \<open>n\<close> passes) and the
  constructor raises \<open>AssertionError\<close>: no engine is returned.
\<close>
theorem scan_fail_fast:
  assumes "files fname = Some content"
    and "scan_after content n (\<lparr>timestamp = 0, file_name = fname, key_dir = Map.empty\<rparr>, 0)
           = Some (self, pos)"
    and "decode_header (file_read content pos 12) = Inr (ts, ks, vs)"
    and "ks = 0 \<or> vs = 0 \<or> file_read content (pos + 12) ks = []"
  shows "key_dir_from_body self content pos = Inl AssertionError \<and>
         (n < m \<longrightarrow>
            scan_after content m (\<lparr>timestamp = 0, file_name = fname, key_dir = Map.empty\<rparr>, 0)
              = None) \<and>
         DiskStorage_init files fname = Inl AssertionError"
proof -
  let ?new = "\<lparr>timestamp = 0, file_name = fname, key_dir = Map.empty\<rparr>"
  have b: "key_dir_from_body self content pos = Inl AssertionError"
    using assms(3,4) by (rule key_dir_from_body_assert)
  have "key_dir_from ?new content 0 = key_dir_from self content pos"
    using assms(2) by (rule scan_after_key_dir_from)
  then have k: "key_dir_from ?new content 0 = Inl AssertionError"
    using key_dir_from_raise [OF b] by simp
  have i: "DiskStorage_init files fname = Inl AssertionError"
    using assms(1) k by (simp add: DiskStorage_init_def)
  have s: "scan_after content m (?new, 0) = None" if "n < m"
  proof -
    from that obtain d where m: "m = n + Suc d" using less_imp_Suc_add by auto
    show ?thesis unfolding m scan_after_add using assms(2) b by simp
  qed
  show ?thesis using b i s by simp
qed

text \<open>
  A file of three records of which the second declares \<open>value_size = 0\<close>: the constructor
  raises, although the third record is well formed.
\<close>
theorem scan_fail_fast_witness:
  "DiskStorage_init
     [[100] \<mapsto> [7, 0, 0, 0, 1, 0, 0, 0, 1, 0, 0, 0, 107, 118,
                 8, 0, 0, 0, 1, 0, 0, 0, 0, 0, 0, 0, 106,
                 9, 0, 0, 0, 1, 0, 0, 0, 1, 0, 0, 0, 105, 118]] [100]
   = Inl AssertionError"
proof -
  let ?c = "[7, 0, 0, 0, 1, 0, 0, 0, 1, 0, 0, 0, 107, 118,
             8, 0, 0, 0, 1, 0, 0, 0, 0, 0, 0, 0, 106,
             9, 0, 0, 0, 1, 0, 0, 0, 1, 0, 0, 0, 105, 118] :: bytes"
  have s: "scan_after ?c (Suc 0) (\<lparr>timestamp = 0, file_name = [100], key_dir = Map.empty\<rparr>, 0)
      = Some (\<lparr>timestamp = 0, file_name = [100],
                key_dir = [[107] \<mapsto> ([100], 14, 0, 7)]\<rparr>, 14)"
    by (simp add: key_dir_from_body_def file_read_def decode_header_def unpack_I_def
        utf8_decode.simps utf8_decode_char_def)
  have h: "decode_header (file_read ?c 14 12) = Inr (8, 1, 0)"
    by (simp add: file_read_def decode_header_def unpack_I_def)
  have f: "[[100 :: nat] \<mapsto> ?c] [100] = Some ?c" by simp
  show ?thesis
    using scan_fail_fast [where files = "[[100] \<mapsto> ?c]" and fname = "[100]", OF f s h]
    by simp
qed

text \<open>
  Claim C2. Last-write-wins: for any engine and file system and any key, after a \<open>set\<close>
  of the key to \<open>v1\<close> and then a \<open>set\<close> of it to \<open>v2\<close>, both returning normally, \<open>get\<close> of
  the key returns \<open>v2\<close>, and the file is what it was before, followed by the encoded
  record of the first call (timestamp one more than the counter) and then that of the
  second: the second \<open>set\<close> appended and changed no byte of the first record.
\<close>
theorem last_write_wins:
  assumes "DiskStorage_set creatable self files key v1 = (Inr (), self1, files1)"
    and "DiskStorage_set creatable self1 files1 key v2 = (Inr (), self2, files2)"
  shows "fst (DiskStorage_get self2 files2 key) = Inr v2 \<and>
         (\<exists>sz1 datum1 sz2 datum2.
            encode_kv (timestamp self + 1) key v1 = Inr (sz1, datum1) \<and>
            encode_kv (timestamp self + 2) key v2 = Inr (sz2, datum2) \<and>
            files1 (file_name self) = Some (file_content files (file_name self) @ datum1) \<and>
            files2 (file_name self)
              = Some (file_content files (file_name self) @ datum1 @ datum2))"
proof -
  let ?old = "file_content files (file_name self)"
  from DiskStorage_set_ok [OF assms(1)] obtain sz1 datum1
    where e1: "encode_kv (timestamp self + 1) key v1 = Inr (sz1, datum1)"
      and d1: "self1 = self\<lparr>timestamp := timestamp self + 1,
           key_dir := (key_dir self)
             (key \<mapsto> (file_name self, sz1 + 12, length ?old, timestamp self + 1))\<rparr>"
      and f1: "files1 = files(file_name self \<mapsto> ?old @ datum1)"
    by blast
  have n1: "file_name self1 = file_name self" and t1: "timestamp self1 = timestamp self + 1"
    by (simp_all add: d1)
  have c1: "file_content files1 (file_name self) = ?old @ datum1"
    by (simp add: f1 file_content_def)
  from DiskStorage_set_ok [OF assms(2)] obtain sz2 datum2
    where e2: "encode_kv (timestamp self1 + 1) key v2 = Inr (sz2, datum2)"
      and d2: "self2 = self1\<lparr>timestamp := timestamp self1 + 1,
           key_dir := (key_dir self1)
             (key \<mapsto> (file_name self1, sz2 + 12,
                      length (file_content files1 (file_name self1)), timestamp self1 + 1))\<rparr>"
      and f2: "files2 = files1(file_name self1 \<mapsto>
                 file_content files1 (file_name self1) @ datum2)"
    by blast
  have e2': "encode_kv (timestamp self + 2) key v2 = Inr (sz2, datum2)"
    using e2 t1 by (simp add: add.assoc)
  have l2: "length datum2 = sz2 + 12" using e2 by (rule encode_kv_length)
  have k: "key_dir self2 key
      = Some (file_name self2, sz2 + 12, length (?old @ datum1), timestamp self + 2)"
    by (simp add: d2 c1 t1 n1)
  have f: "files2 (file_name self2) = Some ((?old @ datum1) @ datum2)"
    by (simp add: f2 d2 c1 n1)
  have "file_read ((?old @ datum1) @ datum2) (length (?old @ datum1)) (sz2 + 12) = datum2"
    using l2 by (simp add: file_read_def)
  then have "decode_kv (file_read ((?old @ datum1) @ datum2) (length (?old @ datum1)) (sz2 + 12))
      = Inr (timestamp self + 2, key, v2)"
    using decode_kv_encode_kv [OF e2'] by simp
  from DiskStorage_get_found [where files = files2, OF k f this]
  have g: "fst (DiskStorage_get self2 files2 key) = Inr v2" by simp
  have "files1 (file_name self) = Some (?old @ datum1)" by (simp add: f1)
  moreover have "files2 (file_name self) = Some (?old @ datum1 @ datum2)"
    using f by (simp add: d2 n1)
  ultimately show ?thesis using g e1 e2' by blast
qed

text \<open>
  A new engine over no file, where the file can be created; \<open>set("k", "v1")\<close>,
  \<open>set("k", "v2")\<close>, \<open>get("k")\<close>.
\<close>
theorem last_write_wins_witness:
  "DiskStorage_set flat_dir \<lparr>timestamp = 0, file_name = [100], key_dir = Map.empty\<rparr> Map.empty
       [107] [118, 49]
     = (Inr (), \<lparr>timestamp = 1, file_name = [100], key_dir = [[107] \<mapsto> ([100], 15, 0, 1)]\<rparr>,
        [[100] \<mapsto> [1, 0, 0, 0, 1, 0, 0, 0, 2, 0, 0, 0, 107, 118, 49]]) \<and>
   DiskStorage_set flat_dir \<lparr>timestamp = 1, file_name = [100], key_dir = [[107] \<mapsto> ([100], 15, 0, 1)]\<rparr>
       [[100] \<mapsto> [1, 0, 0, 0, 1, 0, 0, 0, 2, 0, 0, 0, 107, 118, 49]] [107] [118, 50]
     = (Inr (), \<lparr>timestamp = 2, file_name = [100], key_dir = [[107] \<mapsto> ([100], 15, 15, 2)]\<rparr>,
        [[100] \<mapsto> [1, 0, 0, 0, 1, 0, 0, 0, 2, 0, 0, 0, 107, 118, 49,
                      2, 0, 0, 0, 1, 0, 0, 0, 2, 0, 0, 0, 107, 118, 50]]) \<and>
   fst (DiskStorage_get
          \<lparr>timestamp = 2, file_name = [100], key_dir = [[107] \<mapsto> ([100], 15, 15, 2)]\<rparr>
          [[100] \<mapsto> [1, 0, 0, 0, 1, 0, 0, 0, 2, 0, 0, 0, 107, 118, 49,
                        2, 0, 0, 0, 1, 0, 0, 0, 2, 0, 0, 0, 107, 118, 50]] [107])
     = Inr [118, 50]"
proof -
  have e1: "encode_kv 1 [107] [118, 49]
      = Inr (3, [1, 0, 0, 0, 1, 0, 0, 0, 2, 0, 0, 0, 107, 118, 49])"
    by (simp add: encode_kv_def encode_header_def in_range_I_def pack_I_def utf8_encode_char_def)
  have e2: "encode_kv 2 [107] [118, 50]
      = Inr (3, [2, 0, 0, 0, 1, 0, 0, 0, 2, 0, 0, 0, 107, 118, 50])"
    by (simp add: encode_kv_def encode_header_def in_range_I_def pack_I_def utf8_encode_char_def)
  have n15: "Suc (Suc (Suc (Suc (Suc (Suc (Suc (Suc (Suc (Suc (Suc (Suc (Suc (Suc (Suc 0))))))))))))))
      = 15"
    by simp
  have s1: "DiskStorage_set flat_dir \<lparr>timestamp = 0, file_name = [100], key_dir = Map.empty\<rparr> Map.empty
       [107] [118, 49]
     = (Inr (), \<lparr>timestamp = 1, file_name = [100], key_dir = [[107] \<mapsto> ([100], 15, 0, 1)]\<rparr>,
        [[100] \<mapsto> [1, 0, 0, 0, 1, 0, 0, 0, 2, 0, 0, 0, 107, 118, 49]])"
    by (simp add: DiskStorage_set_def next_timestamp_def e1 open_append_def flat_dir_def)
  have s2: "DiskStorage_set flat_dir
       \<lparr>timestamp = 1, file_name = [100], key_dir = [[107] \<mapsto> ([100], 15, 0, 1)]\<rparr>
       [[100] \<mapsto> [1, 0, 0, 0, 1, 0, 0, 0, 2, 0, 0, 0, 107, 118, 49]] [107] [118, 50]
     = (Inr (), \<lparr>timestamp = 2, file_name = [100], key_dir = [[107] \<mapsto> ([100], 15, 15, 2)]\<rparr>,
        [[100] \<mapsto> [1, 0, 0, 0, 1, 0, 0, 0, 2, 0, 0, 0, 107, 118, 49,
                      2, 0, 0, 0, 1, 0, 0, 0, 2, 0, 0, 0, 107, 118, 50]])"
    by (simp add: DiskStorage_set_def next_timestamp_def e2 open_append_def n15)
  show ?thesis
    using s1 s2 last_write_wins [OF s1 s2] by simp
qed

subsection \<open>Restarting over the log\<close>

lemma utf8_encode_nonempty: "utf8_encode s = Inr bs \<Longrightarrow> s \<noteq> [] \<Longrightarrow> bs \<noteq> []"
proof (cases s)
  case Nil
  assume "s \<noteq> []"
  then show ?thesis using Nil by simp
next
  case (Cons c cs)
  assume "utf8_encode s = Inr bs"
  then obtain b1 b2 where "utf8_encode_char c = Inr b1" "bs = b1 @ b2"
    using utf8_encode_Cons [of c cs bs] Cons by blast
  then show ?thesis using utf8_encode_char_nonempty by simp
qed

lemma good_record_encode:
  assumes "good_record (ts, key, val)"
  shows "\<exists>kb vb header. utf8_encode key = Inr kb \<and> utf8_encode val = Inr vb \<and>
           kb \<noteq> [] \<and> vb \<noteq> [] \<and>
           encode_header ts (int (length kb)) (int (length vb)) = Inr header \<and>
           encode_kv ts key val = Inr (length kb + length vb, header @ kb @ vb) \<and>
           record_bytes (ts, key, val) = header @ kb @ vb"
proof -
  from assms obtain kb vb where k: "utf8_encode key = Inr kb" "length kb < 2 ^ 32"
    and v: "utf8_encode val = Inr vb" "length vb < 2 ^ 32"
    and ne: "key \<noteq> []" "val \<noteq> []" and ts: "in_range_I ts"
    by (auto simp: good_record_def writable_def split: sum.splits)
  have e: "encode_kv ts key val = Inr (length kb + length vb,
      pack_I ts @ pack_I (int (length kb)) @ pack_I (int (length vb)) @ kb @ vb)"
    using ts k(1) v(1) k(2) v(2) by (rule encode_kv_ok)
  have "in_range_I (int (length kb))" "in_range_I (int (length vb))"
    using k(2) v(2) by (simp_all add: in_range_I_def)
  then have h: "encode_header ts (int (length kb)) (int (length vb))
      = Inr (pack_I ts @ pack_I (int (length kb)) @ pack_I (int (length vb)))"
    using ts by (simp add: encode_header_def)
  have "record_bytes (ts, key, val)
      = (pack_I ts @ pack_I (int (length kb)) @ pack_I (int (length vb))) @ kb @ vb"
    by (simp add: record_bytes_def e)
  then show ?thesis
    using k(1) v(1) utf8_encode_nonempty [OF k(1) ne(1)] utf8_encode_nonempty [OF v(1) ne(2)]
      h e by auto
qed

lemma good_record_decode:
  "good_record (ts, key, val) \<Longrightarrow> decode_kv (record_bytes (ts, key, val)) = Inr (ts, key, val)"
  using good_record_encode [of ts key val] decode_kv_encode_kv by metis

lemma good_record_nonempty: "good_record r \<Longrightarrow> record_bytes r \<noteq> []"
proof -
  assume g: "good_record r"
  obtain ts key val where r: "r = (ts, key, val)" by (cases r)
  from good_record_encode [OF g [unfolded r]] show ?thesis unfolding r by auto
qed

lemma key_dir_from_body_good:
  assumes "good_record (ts, key, val)"
  shows "key_dir_from_body self (pre @ record_bytes (ts, key, val) @ post) (length pre)
     = Inr (Some (self\<lparr>key_dir := (key_dir self)
                    (key \<mapsto> (file_name self, length (record_bytes (ts, key, val)),
                             length pre, ts))\<rparr>,
                  length pre + length (record_bytes (ts, key, val))))"
proof -
  from good_record_encode [OF assms] obtain kb vb header
    where k: "utf8_encode key = Inr kb" and ne: "kb \<noteq> []" "vb \<noteq> []"
      and h: "encode_header ts (int (length kb)) (int (length vb)) = Inr header"
      and rb: "record_bytes (ts, key, val) = header @ kb @ vb"
    by blast
  note hd = decode_encode_header [OF h]
  have r1: "file_read (pre @ header @ kb @ vb @ post) (length pre) 12 = header"
    using hd(2) by (simp add: file_read_def)
  have r2: "file_read (pre @ header @ kb @ vb @ post) (length pre + 12) (length kb) = kb"
    using hd(2) by (simp add: file_read_def)
  have hne: "header \<noteq> []" using hd(2) by auto
  show ?thesis
    using hd hne ne utf8_decode_encode [OF k]
    by (simp add: rb key_dir_from_body_def r1 r2 Let_def add.assoc)
qed

lemma log_bytes_Cons: "log_bytes (r # rs) = record_bytes r @ log_bytes rs"
  by (simp add: log_bytes_def)

lemma log_bytes_snoc: "log_bytes (rs @ [r]) = log_bytes rs @ record_bytes r"
  by (simp add: log_bytes_def)

lemma key_dir_from_log:
  "list_all good_record rs \<Longrightarrow>
   key_dir_from self (pre @ log_bytes rs) (length pre)
     = Inr (self\<lparr>key_dir := log_dir (file_name self) (length pre) rs (key_dir self)\<rparr>)"
proof (induction rs arbitrary: self pre)
  case Nil
  have "key_dir_from_body self pre (length pre) = Inr None"
    by (simp add: key_dir_from_body_def file_read_def)
  then show ?case using key_dir_from_break [of self pre "length pre"] by (simp add: log_bytes_def)
next
  case (Cons r rs)
  obtain ts key val where r: "r = (ts, key, val)" by (cases r)
  have g: "good_record (ts, key, val)" and gs: "list_all good_record rs"
    using Cons.prems r by simp_all
  let ?rb = "record_bytes (ts, key, val)"
  let ?self = "self\<lparr>key_dir := (key_dir self)
                    (key \<mapsto> (file_name self, length ?rb, length pre, ts))\<rparr>"
  have b: "key_dir_from_body self (pre @ ?rb @ log_bytes rs) (length pre)
      = Inr (Some (?self, length pre + length ?rb))"
    using g by (rule key_dir_from_body_good)
  have "key_dir_from self (pre @ ?rb @ log_bytes rs) (length pre)
      = key_dir_from ?self (pre @ ?rb @ log_bytes rs) (length pre + length ?rb)"
    using b by (rule key_dir_from_continue)
  also have "\<dots> = key_dir_from ?self ((pre @ ?rb) @ log_bytes rs) (length (pre @ ?rb))"
    by simp
  also have "\<dots> = Inr (?self\<lparr>key_dir :=
      log_dir (file_name ?self) (length (pre @ ?rb)) rs (key_dir ?self)\<rparr>)"
    using gs by (rule Cons.IH)
  finally show ?case by (simp add: r log_bytes_Cons)
qed

lemma log_bytes_empty: "list_all good_record rs \<Longrightarrow> log_bytes rs = [] \<Longrightarrow> rs = []"
  by (cases rs) (auto simp: log_bytes_Cons dest: good_record_nonempty)

lemma DiskStorage_init_log:
  assumes "list_all good_record rs" and "file_content files fname = log_bytes rs"
  shows "DiskStorage_init files fname
     = Inr \<lparr>timestamp = 0, file_name = fname, key_dir = log_dir fname 0 rs Map.empty\<rparr>"
proof (cases "files fname")
  case None
  then have "log_bytes rs = []" using assms(2) by (simp add: file_content_def)
  then have "rs = []" using assms(1) by (intro log_bytes_empty)
  then show ?thesis using None by (simp add: DiskStorage_init_def)
next
  case (Some content)
  then have c: "content = log_bytes rs" using assms(2) by (simp add: file_content_def)
  show ?thesis
    using key_dir_from_log [OF assms(1), of _ "[]"] Some c
    by (simp add: DiskStorage_init_def)
qed

lemma log_dir_snoc:
  "log_dir fname pos (rs @ [r]) m
     = (log_dir fname pos rs m)
         (fst (snd r) \<mapsto> (fname, length (record_bytes r), pos + length (log_bytes rs), fst r))"
  by (induction rs arbitrary: pos m) (simp_all add: log_bytes_def add.assoc)

lemma log_value_snoc: "log_value (rs @ [r]) = (log_value rs)(fst (snd r) \<mapsto> snd (snd r))"
  by (cases r) (simp add: log_value_def)

lemma is_value_unit: "is_value r \<longleftrightarrow> r = Inr ()"
  by (cases r) (simp_all add: is_value_def)

lemma encode_kv_good_record:
  assumes "encode_kv ts key val = Inr (sz, datum)" and "key \<noteq> []" and "val \<noteq> []"
  shows "good_record (ts, key, val) \<and> record_bytes (ts, key, val) = datum"
proof -
  from encode_kv_Inr [OF assms(1)] obtain kb vb header
    where k: "utf8_encode key = Inr kb" and v: "utf8_encode val = Inr vb"
      and h: "encode_header ts (int (length kb)) (int (length vb)) = Inr header"
    by blast
  have "in_range_I ts" "in_range_I (int (length kb))" "in_range_I (int (length vb))"
    using h by (auto simp: encode_header_def split: if_splits)
  then have "good_record (ts, key, val)"
    using k v assms(2,3) by (simp add: good_record_def writable_def in_range_I_def)
  then show ?thesis using assms(1) by (simp add: record_bytes_def)
qed

lemma DiskStorage_set_returned:
  assumes "is_value (fst (DiskStorage_set creatable self files key val))"
    and "key \<noteq> []" and "val \<noteq> []"
  shows "good_record (timestamp self + 1, key, val) \<and>
     DiskStorage_set creatable self files key val =
     (Inr (),
      self\<lparr>timestamp := timestamp self + 1,
           key_dir := (key_dir self)
             (key \<mapsto> (file_name self, length (record_bytes (timestamp self + 1, key, val)),
                      length (file_content files (file_name self)), timestamp self + 1))\<rparr>,
      files(file_name self \<mapsto>
              file_content files (file_name self) @ record_bytes (timestamp self + 1, key, val)))"
proof -
  obtain self' files' where r: "DiskStorage_set creatable self files key val = (Inr (), self', files')"
    using assms(1) by (cases "DiskStorage_set creatable self files key val") (simp add: is_value_unit)
  from DiskStorage_set_ok [OF r] obtain sz datum
    where e: "encode_kv (timestamp self + 1) key val = Inr (sz, datum)"
      and d: "self' = self\<lparr>timestamp := timestamp self + 1,
           key_dir := (key_dir self)
             (key \<mapsto> (file_name self, sz + 12, length (file_content files (file_name self)),
                      timestamp self + 1))\<rparr>"
      and f: "files' = files(file_name self \<mapsto> file_content files (file_name self) @ datum)"
    by blast
  note g = encode_kv_good_record [OF e assms(2,3)]
  have l: "length datum = sz + 12" using e by (rule encode_kv_length)
  show ?thesis using g l by (simp add: r d f)
qed

lemma perform_set_log_inv:
  assumes "log_inv fname rs w" and "returned creatable w (Set key val)"
    and "key \<noteq> []" and "val \<noteq> []"
  shows "log_inv fname (rs @ [(timestamp (fst w) + 1, key, val)])
           (perform creatable w (Set key val)) \<and>
         good_record (timestamp (fst w) + 1, key, val)"
proof -
  obtain self files where w: "w = (self, files)" by (cases w)
  have i: "file_name self = fname" "file_content files fname = log_bytes rs"
    "key_dir self = log_dir fname 0 rs Map.empty"
    using assms(1) by (simp_all add: log_inv_def w)
  have "is_value (fst (DiskStorage_set creatable self files key val))"
    using assms(2) w by simp
  note s = DiskStorage_set_returned [OF this assms(3,4)]
  show ?thesis
    unfolding w using i s
    by (simp add: log_inv_def log_dir_snoc log_bytes_snoc file_content_def)
qed

lemma run_Cons: "run creatable w (c # calls) = run creatable (perform creatable w c) calls"
  by (simp add: run_def)

lemma run_sets_log_inv:
  assumes "log_inv fname rs w" and "list_all (\<lambda>(k, v). k \<noteq> [] \<and> v \<noteq> []) kvs"
    and "all_returned creatable w (map (\<lambda>(k, v). Set k v) kvs)"
  shows "log_inv fname (rs @ new_records (timestamp (fst w)) kvs)
           (run creatable w (map (\<lambda>(k, v). Set k v) kvs)) \<and>
         list_all good_record (new_records (timestamp (fst w)) kvs)"
  using assms
proof (induction kvs arbitrary: w rs)
  case Nil
  then show ?case by (simp add: run_def)
next
  case (Cons kv kvs)
  obtain key val where kv: "kv = (key, val)" by (cases kv)
  let ?t = "timestamp (fst w)"
  let ?w = "perform creatable w (Set key val)"
  have ne: "key \<noteq> []" "val \<noteq> []" and nes: "list_all (\<lambda>(k, v). k \<noteq> [] \<and> v \<noteq> []) kvs"
    using Cons.prems(2) kv by simp_all
  have r: "returned creatable w (Set key val)"
    and rs: "all_returned creatable ?w (map (\<lambda>(k, v). Set k v) kvs)"
    using Cons.prems(3) kv by simp_all
  from perform_set_log_inv [OF Cons.prems(1) r ne]
  have i: "log_inv fname (rs @ [(?t + 1, key, val)]) ?w" and g: "good_record (?t + 1, key, val)"
    by simp_all
  have t: "timestamp (fst ?w) = ?t + 1"
    using perform_timestamp [of creatable w "Set key val"] by simp
  have "log_inv fname ((rs @ [(?t + 1, key, val)]) @ new_records (timestamp (fst ?w)) kvs)
           (run creatable ?w (map (\<lambda>(k, v). Set k v) kvs)) \<and>
         list_all good_record (new_records (timestamp (fst ?w)) kvs)"
    using i nes rs by (rule Cons.IH)
  then show ?case using g by (simp add: kv run_Cons t)
qed

lemma map_snd_new_records: "map snd (new_records t kvs) = kvs"
  by (induction kvs arbitrary: t) simp_all

lemma log_dir_None:
  "log_dir fname 0 rs Map.empty key = None \<Longrightarrow> log_value rs key = None"
proof (induction rs rule: rev_induct)
  case Nil
  then show ?case by (simp add: log_value_def)
next
  case (snoc r rs)
  then show ?case by (auto simp: log_dir_snoc log_value_snoc split: if_splits)
qed

lemma log_dir_Some:
  "list_all good_record rs \<Longrightarrow>
   log_dir fname 0 rs Map.empty key = Some (f, len, pos, ts) \<Longrightarrow>
   f = fname \<and> pos + len \<le> length (log_bytes rs) \<and>
   (\<exists>v. log_value rs key = Some v \<and> good_record (ts, key, v) \<and>
        file_read (log_bytes rs) pos len = record_bytes (ts, key, v))"
proof (induction rs arbitrary: f len pos ts rule: rev_induct)
  case Nil
  then show ?case by simp
next
  case (snoc r rs)
  obtain t k v where r: "r = (t, k, v)" by (cases r)
  have gs: "list_all good_record rs" and g: "good_record (t, k, v)"
    using snoc.prems(1) r by simp_all
  show ?case
  proof (cases "key = k")
    case True
    then have e: "f = fname" "len = length (record_bytes r)" "pos = length (log_bytes rs)"
      "ts = t"
      using snoc.prems(2) r by (auto simp: log_dir_snoc)
    show ?thesis
      using g True by (simp add: e r log_bytes_snoc log_value_snoc file_read_def)
  next
    case False
    then have d: "log_dir fname 0 rs Map.empty key = Some (f, len, pos, ts)"
      using snoc.prems(2) r by (simp add: log_dir_snoc)
    from snoc.IH [OF gs d] obtain v' where i: "f = fname" "pos + len \<le> length (log_bytes rs)"
      "log_value rs key = Some v'" "good_record (ts, key, v')"
      "file_read (log_bytes rs) pos len = record_bytes (ts, key, v')"
      by blast
    have "file_read (log_bytes rs @ record_bytes r) pos len = file_read (log_bytes rs) pos len"
      using i(2) by (simp add: file_read_def)
    then show ?thesis
      using i False by (simp add: r log_bytes_snoc log_value_snoc)
  qed
qed

lemma DiskStorage_get_log:
  assumes "log_inv fname rs (self, files)" and "list_all good_record rs"
  shows "fst (DiskStorage_get self files key)
     = (case log_value rs key of None \<Rightarrow> Inr [] | Some v \<Rightarrow> Inr v)"
proof -
  have i: "file_name self = fname" "file_content files fname = log_bytes rs"
    "key_dir self = log_dir fname 0 rs Map.empty"
    using assms(1) by (simp_all add: log_inv_def)
  show ?thesis
  proof (cases "key_dir self key")
    case None
    then have "log_value rs key = None" using i(3) log_dir_None by simp
    then show ?thesis using None by (simp add: DiskStorage_get_def)
  next
    case (Some e)
    obtain f len pos ts where e: "e = (f, len, pos, ts)" by (cases e)
    have d: "log_dir fname 0 rs Map.empty key = Some (f, len, pos, ts)"
      using Some e i(3) by simp
    from log_dir_Some [OF assms(2) d] obtain v where p: "f = fname"
      "pos + len \<le> length (log_bytes rs)" "log_value rs key = Some v"
      "good_record (ts, key, v)" "file_read (log_bytes rs) pos len = record_bytes (ts, key, v)"
      by blast
    have ne: "log_bytes rs \<noteq> []"
      using p(5) good_record_nonempty [OF p(4)] by (auto simp: file_read_def)
    then have c: "files (file_name self) = Some (log_bytes rs)"
      using i(1,2) by (cases "files fname") (simp_all add: file_content_def)
    have k: "key_dir self key = Some (file_name self, len, pos, ts)"
      using Some e p(1) i(1) by simp
    have "decode_kv (file_read (log_bytes rs) pos len) = Inr (ts, key, v)"
      using good_record_decode [OF p(4)] p(5) by simp
    from DiskStorage_get_found [where files = files, OF k c this]
    show ?thesis using p(3) by simp
  qed
qed

lemma DiskStorage_get_same:
  "key_dir a = key_dir b \<Longrightarrow> file_name a = file_name b \<Longrightarrow>
   fst (DiskStorage_get a files key) = fst (DiskStorage_get b files key)"
  by (simp add: DiskStorage_get_def split: option.splits prod.splits sum.splits)

lemma log_value_append:
  "map_of (rev (map snd new)) key = Some v \<Longrightarrow> log_value (rs @ new) key = Some v"
  by (simp add: log_value_def)

text \<open>
  Claim C3, as amended. Persistence across restart: let the file be absent, empty or hold
  good records only, let an engine be constructed over it, and let that engine make
  \<open>set\<close> calls that all return normally, each with a non-empty key and a non-empty
  value. Then constructing a fresh engine over the same file succeeds and gives the key
  directory of the first engine, so \<open>get\<close> of the two engines agrees on every key, and for
  every key written it returns the value written last (for distinct keys: the value
  written), with no \<open>set\<close> call on the fresh engine.
\<close>
theorem persistence_across_restart:
  assumes "list_all good_record recs" and "file_content files fname = log_bytes recs"
    and "DiskStorage_init files fname = Inr db0"
    and "list_all (\<lambda>(k, v). k \<noteq> [] \<and> v \<noteq> []) kvs"
    and "all_returned creatable (db0, files) (map (\<lambda>(k, v). Set k v) kvs)"
    and "run creatable (db0, files) (map (\<lambda>(k, v). Set k v) kvs) = (db1, files1)"
  shows "\<exists>db2. DiskStorage_init files1 fname = Inr db2 \<and>
           key_dir db2 = key_dir db1 \<and> file_name db2 = file_name db1 \<and>
           (\<forall>key. fst (DiskStorage_get db2 files1 key) = fst (DiskStorage_get db1 files1 key)) \<and>
           (\<forall>key v. map_of (rev kvs) key = Some v \<longrightarrow>
              fst (DiskStorage_get db1 files1 key) = Inr v \<and>
              fst (DiskStorage_get db2 files1 key) = Inr v)"
proof -
  have d0: "db0 = \<lparr>timestamp = 0, file_name = fname, key_dir = log_dir fname 0 recs Map.empty\<rparr>"
    using DiskStorage_init_log [OF assms(1,2)] assms(3) by simp
  have i0: "log_inv fname recs (db0, files)"
    using assms(2) by (simp add: log_inv_def d0)
  let ?rs = "recs @ new_records 0 kvs"
  from run_sets_log_inv [OF i0 assms(4,5)]
  have i1: "log_inv fname ?rs (db1, files1)" and g: "list_all good_record ?rs"
    using assms(1,6) by (simp_all add: d0)
  let ?db2 = "\<lparr>timestamp = 0, file_name = fname, key_dir = log_dir fname 0 ?rs Map.empty\<rparr>"
  have c1: "file_content files1 fname = log_bytes ?rs" and k1: "key_dir db1 = key_dir ?db2"
    and n1: "file_name db1 = file_name ?db2"
    using i1 by (simp_all add: log_inv_def)
  have r: "DiskStorage_init files1 fname = Inr ?db2"
    using g c1 by (rule DiskStorage_init_log)
  have s: "fst (DiskStorage_get ?db2 files1 key) = fst (DiskStorage_get db1 files1 key)" for key
    using k1 n1 by (intro DiskStorage_get_same) simp_all
  have v: "fst (DiskStorage_get db1 files1 key) = Inr v" if "map_of (rev kvs) key = Some v"
    for key v
  proof -
    have "log_value ?rs key = Some v"
      using that by (intro log_value_append) (simp add: map_snd_new_records)
    then show ?thesis using DiskStorage_get_log [OF i1 g, of key] by simp
  qed
  show ?thesis
    using r k1 n1 s v by (intro exI [of _ ?db2]) simp
qed

text \<open>
  A new engine over no file writes \<open>"k" = "v"\<close> and \<open>"j" = "w"\<close>; a fresh engine over the
  file has the same directory and returns both values.
\<close>
theorem persistence_across_restart_witness:
  "all_returned flat_dir
     (\<lparr>timestamp = 0, file_name = [100], key_dir = Map.empty\<rparr>, Map.empty)
     [Set [107] [118], Set [106] [119]] \<and>
   run flat_dir (\<lparr>timestamp = 0, file_name = [100], key_dir = Map.empty\<rparr>, Map.empty)
       [Set [107] [118], Set [106] [119]]
     = (\<lparr>timestamp = 2, file_name = [100],
         key_dir = [[107] \<mapsto> ([100], 14, 0, 1), [106] \<mapsto> ([100], 14, 14, 2)]\<rparr>,
        [[100] \<mapsto> [1, 0, 0, 0, 1, 0, 0, 0, 1, 0, 0, 0, 107, 118,
                      2, 0, 0, 0, 1, 0, 0, 0, 1, 0, 0, 0, 106, 119]]) \<and>
   (\<exists>db2. DiskStorage_init
            [[100] \<mapsto> [1, 0, 0, 0, 1, 0, 0, 0, 1, 0, 0, 0, 107, 118,
                          2, 0, 0, 0, 1, 0, 0, 0, 1, 0, 0, 0, 106, 119]] [100] = Inr db2 \<and>
          key_dir db2 = [[107] \<mapsto> ([100], 14, 0, 1), [106] \<mapsto> ([100], 14, 14, 2)] \<and>
          fst (DiskStorage_get db2
                 [[100] \<mapsto> [1, 0, 0, 0, 1, 0, 0, 0, 1, 0, 0, 0, 107, 118,
                               2, 0, 0, 0, 1, 0, 0, 0, 1, 0, 0, 0, 106, 119]] [107]) = Inr [118] \<and>
          fst (DiskStorage_get db2
                 [[100] \<mapsto> [1, 0, 0, 0, 1, 0, 0, 0, 1, 0, 0, 0, 107, 118,
                               2, 0, 0, 0, 1, 0, 0, 0, 1, 0, 0, 0, 106, 119]] [106]) = Inr [119])"
proof -
  let ?db0 = "\<lparr>timestamp = 0, file_name = [100], key_dir = Map.empty\<rparr>"
  let ?db1 = "\<lparr>timestamp = 2, file_name = [100],
         key_dir = [[107] \<mapsto> ([100], 14, 0, 1), [106] \<mapsto> ([100], 14, 14, 2)]\<rparr>"
  let ?files1 = "[[100] \<mapsto> [1, 0, 0, 0, 1, 0, 0, 0, 1, 0, 0, 0, 107, 118,
                      2, 0, 0, 0, 1, 0, 0, 0, 1, 0, 0, 0, 106, 119 :: byte]]"
  let ?kvs = "[([107], [118]), ([106], [119])] :: (pystr \<times> pystr) list"
  have e2: "encode_kv 2 [106] [119] = Inr (2, [2, 0, 0, 0, 1, 0, 0, 0, 1, 0, 0, 0, 106, 119])"
    by (simp add: encode_kv_def encode_header_def in_range_I_def pack_I_def utf8_encode_char_def)
  have n14: "Suc (Suc (Suc (Suc (Suc (Suc (Suc (Suc (Suc (Suc (Suc (Suc (Suc (Suc 0)))))))))))))
      = 14"
    by simp
  have s1: "DiskStorage_set flat_dir ?db0 Map.empty [107] [118]
      = (Inr (), \<lparr>timestamp = 1, file_name = [100], key_dir = [[107] \<mapsto> ([100], 14, 0, 1)]\<rparr>,
         [[100] \<mapsto> [1, 0, 0, 0, 1, 0, 0, 0, 1, 0, 0, 0, 107, 118]])"
    by (simp add: DiskStorage_set_def next_timestamp_def encode_kv_k_v open_append_def
        flat_dir_def)
  have s2: "DiskStorage_set flat_dir
        \<lparr>timestamp = 1, file_name = [100], key_dir = [[107] \<mapsto> ([100], 14, 0, 1)]\<rparr>
        [[100] \<mapsto> [1, 0, 0, 0, 1, 0, 0, 0, 1, 0, 0, 0, 107, 118]] [106] [119]
      = (Inr (), ?db1, ?files1)"
    by (simp add: DiskStorage_set_def next_timestamp_def e2 open_append_def n14)
  have r: "run flat_dir (?db0, Map.empty) (map (\<lambda>(k, v). Set k v) ?kvs) = (?db1, ?files1)"
    by (simp add: run_def s1 s2)
  have a: "all_returned flat_dir (?db0, Map.empty) (map (\<lambda>(k, v). Set k v) ?kvs)"
    by (simp add: s1 s2 is_value_def)
  have h1: "list_all good_record []" by simp
  have h2: "file_content Map.empty [100] = log_bytes []"
    by (simp add: file_content_def log_bytes_def)
  have h3: "DiskStorage_init Map.empty [100] = Inr ?db0" by (simp add: DiskStorage_init_def)
  have h4: "list_all (\<lambda>(k, v). k \<noteq> [] \<and> v \<noteq> []) ?kvs" by simp
  from persistence_across_restart [OF h1 h2 h3 h4 a r] obtain db2
    where i: "DiskStorage_init ?files1 [100] = Inr db2" and k: "key_dir db2 = key_dir ?db1"
      and v: "\<forall>key v. map_of (rev ?kvs) key = Some v \<longrightarrow>
              fst (DiskStorage_get ?db1 ?files1 key) = Inr v \<and>
              fst (DiskStorage_get db2 ?files1 key) = Inr v"
    by blast
  have "fst (DiskStorage_get db2 ?files1 [107]) = Inr [118]"
    "fst (DiskStorage_get db2 ?files1 [106]) = Inr [119]"
    using v by simp_all
  then show ?thesis using a r i k by simp
qed

text \<open>
  Claim C3 as stated fails for an empty value. For a new engine over no file, in a
  directory where the file can be created, \<open>set("k", "")\<close> returns normally and
  \<open>get("k")\<close> returns \<open>""\<close>; the record on disk declares
  \<open>value_size = 0\<close>, so constructing a fresh engine over the file raises \<open>AssertionError\<close>
  and there is no engine to ask.
\<close>
theorem persistence_empty_value:
  "DiskStorage_init Map.empty [100]
     = Inr \<lparr>timestamp = 0, file_name = [100], key_dir = Map.empty\<rparr> \<and>
   all_returned flat_dir
     (\<lparr>timestamp = 0, file_name = [100], key_dir = Map.empty\<rparr>, Map.empty) [Set [107] []] \<and>
   run flat_dir (\<lparr>timestamp = 0, file_name = [100], key_dir = Map.empty\<rparr>, Map.empty)
       [Set [107] []]
     = (\<lparr>timestamp = 1, file_name = [100], key_dir = [[107] \<mapsto> ([100], 13, 0, 1)]\<rparr>,
        [[100] \<mapsto> [1, 0, 0, 0, 1, 0, 0, 0, 0, 0, 0, 0, 107]]) \<and>
   fst (DiskStorage_get
          \<lparr>timestamp = 1, file_name = [100], key_dir = [[107] \<mapsto> ([100], 13, 0, 1)]\<rparr>
          [[100] \<mapsto> [1, 0, 0, 0, 1, 0, 0, 0, 0, 0, 0, 0, 107]] [107]) = Inr [] \<and>
   DiskStorage_init [[100] \<mapsto> [1, 0, 0, 0, 1, 0, 0, 0, 0, 0, 0, 0, 107]] [100]
     = Inl AssertionError"
proof -
  let ?c = "[1, 0, 0, 0, 1, 0, 0, 0, 0, 0, 0, 0, 107] :: bytes"
  have e: "encode_kv 1 [107] [] = Inr (1, ?c)"
    by (simp add: encode_kv_def encode_header_def in_range_I_def pack_I_def utf8_encode_char_def)
  have i0: "DiskStorage_init Map.empty [100]
      = Inr \<lparr>timestamp = 0, file_name = [100], key_dir = Map.empty\<rparr>"
    by (simp add: DiskStorage_init_def)
  have s: "DiskStorage_set flat_dir \<lparr>timestamp = 0, file_name = [100], key_dir = Map.empty\<rparr>
        Map.empty [107] []
      = (Inr (), \<lparr>timestamp = 1, file_name = [100], key_dir = [[107] \<mapsto> ([100], 13, 0, 1)]\<rparr>,
         [[100] \<mapsto> ?c])"
    by (simp add: DiskStorage_set_def next_timestamp_def e open_append_def flat_dir_def)
  have a: "all_returned flat_dir
      (\<lparr>timestamp = 0, file_name = [100], key_dir = Map.empty\<rparr>, Map.empty) [Set [107] []]"
    by (simp add: s is_value_def)
  have r: "run flat_dir (\<lparr>timestamp = 0, file_name = [100], key_dir = Map.empty\<rparr>, Map.empty)
        [Set [107] []]
      = (\<lparr>timestamp = 1, file_name = [100], key_dir = [[107] \<mapsto> ([100], 13, 0, 1)]\<rparr>,
         [[100] \<mapsto> ?c])"
    by (simp add: run_def s)
  have d: "decode_kv (file_read ?c 0 13) = Inr (1, [107], [])"
    using decode_kv_encode_kv [OF e] by (simp add: file_read_def)
  have g: "fst (DiskStorage_get
          \<lparr>timestamp = 1, file_name = [100], key_dir = [[107] \<mapsto> ([100], 13, 0, 1)]\<rparr>
          [[100] \<mapsto> ?c] [107]) = Inr []"
    using d by (simp add: DiskStorage_get_def)
  have h: "decode_header (file_read ?c 0 12) = Inr (1, 1, 0)"
    by (simp add: file_read_def decode_header_def unpack_I_def)
  have b: "key_dir_from_body \<lparr>timestamp = 0, file_name = [100], key_dir = Map.empty\<rparr> ?c 0
      = Inl AssertionError"
    using h by (intro key_dir_from_body_assert [where ts = 1 and ks = 1 and vs = 0]) simp_all
  have i1: "DiskStorage_init [[100] \<mapsto> ?c] [100] = Inl AssertionError"
    using key_dir_from_raise [OF b] by (simp add: DiskStorage_init_def)
  show ?thesis using i0 a r g i1 by simp
qed

end
